theory Spec2Isabelle
  imports Complex_Main "HOL-Library.Sublist"
begin

section \<open>Strings as the analyzer reads them\<close>

text \<open>
  A JavaScript string is a sequence of UTF-16 code units. A \<^typ>\<open>char\<close> stands for a
  code unit below 256; \<^const>\<open>length\<close> is then the \<^verbatim>\<open>.length\<close> of the source.
  The regular-expression class \<^verbatim>\<open>\s\<close> and \<^verbatim>\<open>String.prototype.trim\<close> agree on
  what white space is; below 256 it is TAB, LF, VT, FF, CR, SPACE and NBSP.
  The class \<^verbatim>\<open>\d\<close> is the ten ASCII digits.
\<close>

definition is_space :: "char \<Rightarrow> bool" where
  "is_space c = (of_char c \<in> {9, 10, 11, 12, 13, 32, 160 :: nat})"

definition is_digit :: "char \<Rightarrow> bool" where
  "is_digit c = (48 \<le> (of_char c :: nat) \<and> (of_char c :: nat) \<le> 57)"

text \<open>\<^verbatim>\<open>s.trim()\<close>\<close>

definition trim :: "string \<Rightarrow> string" where
  "trim s = rev (dropWhile is_space (rev (dropWhile is_space s)))"

text \<open>\<^verbatim>\<open>/\d/.test(s)\<close>\<close>

definition has_digit :: "string \<Rightarrow> bool" where
  "has_digit s = list_ex is_digit s"

text \<open>\<^verbatim>\<open>s.replace(/\s+/g, " ")\<close>: every maximal run of white space becomes one space.\<close>

function collapse_ws :: "string \<Rightarrow> string" where
  "collapse_ws [] = []"
| "collapse_ws (c # cs) =
     (if is_space c then CHR '' '' # collapse_ws (dropWhile is_space cs)
      else c # collapse_ws cs)"
  by pat_completeness auto
termination
  by (relation "measure length") (auto simp: length_dropWhile_le less_Suc_eq_le)

text \<open>
  \<^verbatim>\<open>s.split(/\s+/)\<close>. The pattern never matches the empty string, so the empty
  string splits into one empty piece; a match at the very start or end leaves an empty
  piece before or after it. The first argument is the piece being read, reversed.
\<close>

function split_from :: "string \<Rightarrow> string \<Rightarrow> string list" where
  "split_from cur [] = [rev cur]"
| "split_from cur (c # cs) =
     (if is_space c then rev cur # split_from [] (dropWhile is_space cs)
      else split_from (c # cur) cs)"
  by pat_completeness auto
termination
  by (relation "measure (\<lambda>(cur, s). length s)") (auto simp: length_dropWhile_le less_Suc_eq_le)

definition split_ws :: "string \<Rightarrow> string list" where
  "split_ws s = split_from [] s"

text \<open>\<^verbatim>\<open>s.includes(p)\<close> on strings.\<close>

fun str_includes :: "string \<Rightarrow> string \<Rightarrow> bool" where
  "str_includes [] p = (p = [])"
| "str_includes (c # cs) p = (prefix p (c # cs) \<or> str_includes cs p)"


section \<open>Numbers: the double arithmetic of the percentages\<close>

text \<open>
  Both percentages are \<^verbatim>\<open>Math.round((a / b) * 100)\<close> on two lengths or counts. The
  quotient and the product are IEEE-754 double operations, each rounded to the nearest
  value with a 53-bit significand, ties to the even significand. A positive double is
  kept as a pair \<open>(m, e)\<close> for \<open>m * 2 ^ e\<close>. Counts and lengths are far below
  \<open>2 ^ 53\<close>, so they are doubles themselves and no operation here leaves the normal
  range.
\<close>

fun bitlen :: "nat \<Rightarrow> nat" where
  "bitlen n = (if n = 0 then 0 else Suc (bitlen (n div 2)))"

declare bitlen.simps [simp del]

text \<open>Nearest integer to \<open>n / d\<close>, ties to even.\<close>

definition div_rne :: "nat \<Rightarrow> nat \<Rightarrow> nat" where
  "div_rne n d =
     (let q = n div d; r = n mod d
      in if 2 * r < d then q
         else if d < 2 * r then q + 1
         else if even q then q else q + 1)"

text \<open>
  \<open>fl n d\<close> is the double nearest to \<open>n / d\<close> for positive \<open>n\<close> and \<open>d\<close>: the
  exponent \<open>e\<close> is chosen so that \<open>n / d / 2 ^ e\<close> has 53 or 54 bits before rounding
  to an integer significand.
\<close>

definition scale_exp :: "nat \<Rightarrow> nat \<Rightarrow> int" where
  "scale_exp n d =
     (let k = int (bitlen n) - int (bitlen d);
          lg = (if (if 0 \<le> k then d * 2 ^ nat k \<le> n else d \<le> n * 2 ^ nat (- k))
                then k else k - 1)
      in lg - 52)"

definition fl :: "nat \<Rightarrow> nat \<Rightarrow> nat \<times> int" where
  "fl n d =
     (let e = scale_exp n d
      in (if 0 \<le> e then div_rne n (d * 2 ^ nat e) else div_rne (n * 2 ^ nat (- e)) d, e))"

text \<open>
  \<^verbatim>\<open>a / b\<close> on two counts. Division by zero does not throw: it gives \<^verbatim>\<open>NaN\<close>
  or \<^verbatim>\<open>Infinity\<close>, which is the result \<open>None\<close>, and every operation on it gives
  \<^verbatim>\<open>NaN\<close> or \<^verbatim>\<open>Infinity\<close> again. Zero divided by a positive count is zero.
\<close>

definition js_div :: "nat \<Rightarrow> nat \<Rightarrow> (nat \<times> int) option" where
  "js_div a b = (if b = 0 then None else if a = 0 then Some (0, 0) else Some (fl a b))"

text \<open>\<^verbatim>\<open>x * 100\<close> on a finite double; zero stays zero.\<close>

definition js_times100 :: "nat \<times> int \<Rightarrow> nat \<times> int" where
  "js_times100 x =
     (case x of (m, e) \<Rightarrow>
        if m = 0 then (0, 0) else (case fl (m * 100) 1 of (m', e') \<Rightarrow> (m', e + e')))"

text \<open>\<^verbatim>\<open>Math.round(x)\<close>: the integer nearest to \<open>x\<close>, ties upwards, that is \<open>\<lfloor>x + 1/2\<rfloor>\<close>.\<close>

definition js_round :: "nat \<times> int \<Rightarrow> nat" where
  "js_round x =
     (case x of (m, e) \<Rightarrow>
        if 0 \<le> e then m * 2 ^ nat e
        else (2 * m + 2 ^ nat (- e)) div (2 * 2 ^ nat (- e)))"

text \<open>The real number a pair stands for.\<close>

definition double_value :: "nat \<times> int \<Rightarrow> real" where
  "double_value x = real (fst x) * 2 powi (snd x)"

text \<open>\<^verbatim>\<open>Math.round((a / b) * 100)\<close>, \<open>None\<close> when it is not a finite number.\<close>

definition js_percent :: "nat \<Rightarrow> nat \<Rightarrow> nat option" where
  "js_percent a b =
     (case js_div a b of None \<Rightarrow> None | Some q \<Rightarrow> Some (js_round (js_times100 q)))"

text \<open>
  \<^verbatim>\<open>
  const htmlSize = html.length;
  const textSize = textContent.length;
  const renderingPercentage = htmlSize > 0
    ? Math.round((textSize / htmlSize) * 100)
    : 0;
  \<close>
\<close>

definition renderingPercentage :: "nat \<Rightarrow> nat \<Rightarrow> nat option" where
  "renderingPercentage textSize htmlSize =
     (if htmlSize > 0 then js_percent textSize htmlSize else Some 0)"


section \<open>JSON values\<close>

text \<open>
  The value \<^verbatim>\<open>JSON.parse\<close> returns. An object is the list of its own properties,
  each key once, in enumeration order, the order \<^verbatim>\<open>Object.values\<close> follows. A number
  is a double; it is kept as the string that \<^verbatim>\<open>Number.prototype.toString\<close> gives for
  it (\<^verbatim>\<open>62701\<close>, \<^verbatim>\<open>1.5\<close>, \<^verbatim>\<open>1e+21\<close>), which is what \<^verbatim>\<open>String\<close> and
  \<^verbatim>\<open>join\<close> make of it. Two doubles with the same string are the same number, but for
  the two zeros, which both give \<^verbatim>\<open>0\<close> and are equal for \<^verbatim>\<open>includes\<close>. The parser
  never shares a node, so a parsed value is a tree and two object or array nodes are
  never the same reference.
\<close>

datatype json =
    JNull
  | JBool bool
  | JNum string
  | JStr string
  | JArr "json list"
  | JObj "(string \<times> json) list"

datatype error = TypeError | SyntaxError

datatype outcome = Returned | Thrown error

text \<open>
  Truthiness: \<^verbatim>\<open>null\<close>, \<^verbatim>\<open>false\<close>, zero and the empty string are falsy. No
  parsed number is \<^verbatim>\<open>NaN\<close>.
\<close>

fun truthy :: "json \<Rightarrow> bool" where
  "truthy JNull = False"
| "truthy (JBool b) = b"
| "truthy (JNum n) = (n \<noteq> ''0'')"
| "truthy (JStr s) = (s \<noteq> [])"
| "truthy (JArr xs) = True"
| "truthy (JObj kvs) = True"

text \<open>
  \<^verbatim>\<open>v[k]\<close> for the keys the analyzer reads (\<^verbatim>\<open>@graph\<close>, \<^verbatim>\<open>@type\<close>, \<^verbatim>\<open>address\<close> and the
  four address parts), none of which a prototype defines: \<open>None\<close> is \<^verbatim>\<open>undefined\<close>.
  On \<^verbatim>\<open>null\<close> the access throws; the callers below test for \<^verbatim>\<open>null\<close> first.
\<close>

fun get :: "json \<Rightarrow> string \<Rightarrow> json option" where
  "get (JObj kvs) k = map_of kvs k"
| "get v k = None"

definition truthy_opt :: "json option \<Rightarrow> bool" where
  "truthy_opt v = (case v of None \<Rightarrow> False | Some j \<Rightarrow> truthy j)"

text \<open>\<^verbatim>\<open>typeof v === 'object'\<close> holds of \<^verbatim>\<open>null\<close>, arrays and objects.\<close>

fun is_array :: "json \<Rightarrow> bool" where
  "is_array (JArr xs) = True"
| "is_array v = False"

fun typeof_object :: "json \<Rightarrow> bool" where
  "typeof_object JNull = True"
| "typeof_object (JArr xs) = True"
| "typeof_object (JObj kvs) = True"
| "typeof_object v = False"


section \<open>Structured data: the recursive type walk\<close>

text \<open>The variables \<^verbatim>\<open>extractSchemaTypes\<close> closes over and mutates.\<close>

record schema_state =
  schemaTypes :: "json list"
  hasIdentitySchema :: bool
  identityType :: json
  hasLocalBusinessSchema :: bool

definition init_schema_state :: schema_state where
  "init_schema_state =
     \<lparr>schemaTypes = [], hasIdentitySchema = False, identityType = JStr [],
      hasLocalBusinessSchema = False\<rparr>"

text \<open>
  \<^verbatim>\<open>schemaTypes.includes(type)\<close> compares by SameValueZero: by value on primitives, by
  reference on arrays and objects, and no array or object met by the walk is already in
  the list.
\<close>

fun array_includes :: "json list \<Rightarrow> json \<Rightarrow> bool" where
  "array_includes xs (JArr ys) = False"
| "array_includes xs (JObj kvs) = False"
| "array_includes xs v = (v \<in> set xs)"

definition is_identity :: "json \<Rightarrow> bool" where
  "is_identity t =
     (t = JStr ''Organization'' \<or> t = JStr ''Person'' \<or>
      t = JStr ''Corporation'' \<or> t = JStr ''LocalBusiness'')"

text \<open>
  The local-business test calls \<^verbatim>\<open>type.includes("LocalBusiness")\<close> when the type is
  not the string \<^verbatim>\<open>"LocalBusiness"\<close> itself: a substring test on a string, a
  membership test on an array, and a \<^verbatim>\<open>TypeError\<close> on a number, \<^verbatim>\<open>true\<close> or an
  object, which have no callable \<^verbatim>\<open>includes\<close>.
\<close>

fun local_business_test :: "json \<Rightarrow> error + bool" where
  "local_business_test (JStr s) =
     Inr (s = ''LocalBusiness'' \<or> str_includes s ''LocalBusiness'' \<or>
          s = ''Restaurant'' \<or> s = ''Store'' \<or>
          s = ''MedicalBusiness'' \<or> s = ''ProfessionalService'')"
| "local_business_test (JArr xs) = Inr (JStr ''LocalBusiness'' \<in> set xs)"
| "local_business_test v = Inl TypeError"

text \<open>
  The body of \<^verbatim>\<open>types.forEach(type => ...)\<close>:
  \<^verbatim>\<open>
  if (type && !schemaTypes.includes(type)) {
    schemaTypes.push(type);
    if (type === "Organization" || type === "Person" ||
        type === "Corporation" || type === "LocalBusiness") {
      hasIdentitySchema = true;
      identityType = type;
    }
    if (type === "LocalBusiness" || type.includes("LocalBusiness") || ...) {
      hasLocalBusinessSchema = true;
    }
  }
  \<close>
\<close>

definition add_type :: "json \<Rightarrow> schema_state \<Rightarrow> outcome \<times> schema_state" where
  "add_type t st =
     (if truthy t \<and> \<not> array_includes (schemaTypes st) t then
        let st1 = st\<lparr>schemaTypes := schemaTypes st @ [t]\<rparr>;
            st2 = (if is_identity t
                   then st1\<lparr>hasIdentitySchema := True, identityType := t\<rparr> else st1)
        in (case local_business_test t of
              Inl e \<Rightarrow> (Thrown e, st2)
            | Inr b \<Rightarrow> (Returned, if b then st2\<lparr>hasLocalBusinessSchema := True\<rparr> else st2))
      else (Returned, st))"

fun add_types :: "json list \<Rightarrow> schema_state \<Rightarrow> outcome \<times> schema_state" where
  "add_types [] st = (Returned, st)"
| "add_types (t # ts) st =
     (case add_type t st of
        (Returned, st') \<Rightarrow> add_types ts st'
      | (Thrown e, st') \<Rightarrow> (Thrown e, st'))"

text \<open>
  \<^verbatim>\<open>
  if (schema["@type"]) {
    const types = Array.isArray(schema["@type"]) ? schema["@type"] : [schema["@type"]];
    types.forEach(...)
  }
  \<close>
\<close>

definition type_list :: "json \<Rightarrow> json list" where
  "type_list schema =
     (case get schema ''@type'' of
        None \<Rightarrow> []
      | Some t \<Rightarrow> if truthy t then (case t of JArr ts \<Rightarrow> ts | _ \<Rightarrow> [t]) else [])"

text \<open>The \<^verbatim>\<open>@graph\<close> test: the members when the property is an array.\<close>

definition graph_items :: "json \<Rightarrow> json list option" where
  "graph_items schema =
     (case get schema ''@graph'' of Some (JArr items) \<Rightarrow> Some items | _ \<Rightarrow> None)"

text \<open>
  \<^verbatim>\<open>Object.values(schema)\<close>: the property values of an object, the elements of an
  array, the one-character strings of a string, nothing for a number or a boolean.
\<close>

fun object_values :: "json \<Rightarrow> json list" where
  "object_values (JObj kvs) = map snd kvs"
| "object_values (JArr xs) = xs"
| "object_values (JStr s) = map (\<lambda>c. JStr [c]) s"
| "object_values v = []"

text \<open>
  The walk itself. Two measures of a value bound its recursion: \<open>weight\<close> counts
  nodes and the characters of a string (\<^verbatim>\<open>Object.values\<close> of a string yields one
  string per character), \<open>inner_weight\<close> counts only what the nested-value loops
  descend into.
\<close>

fun weight :: "json \<Rightarrow> nat" where
  "weight (JArr xs) = Suc (sum_list (map weight xs))"
| "weight (JObj kvs) = Suc (sum_list (map (\<lambda>kv. weight (snd kv)) kvs))"
| "weight (JStr s) = Suc (length s)"
| "weight v = 1"

definition inner_weight :: "json \<Rightarrow> nat" where
  "inner_weight v = (if truthy v \<and> typeof_object v then weight v else 1)"

text \<open>
  \<^verbatim>\<open>
  const extractSchemaTypes = (schema) => {
    if (!schema) return;
    if (schema["@graph"] && Array.isArray(schema["@graph"])) {
      schema["@graph"].forEach(item => extractSchemaTypes(item));
      return;
    }
    if (schema["@type"]) { ... types.forEach(...) }
    Object.values(schema).forEach(value => {
      if (value && typeof value === 'object' && !Array.isArray(value)) {
        extractSchemaTypes(value);
      } else if (Array.isArray(value)) {
        value.forEach(item => {
          if (item && typeof item === 'object') {
            extractSchemaTypes(item);
          }
        });
      }
    });
  };
  \<close>
  An exception leaves every loop at once; what was pushed before it stays pushed.
\<close>

function extractSchemaTypes :: "json \<Rightarrow> schema_state \<Rightarrow> outcome \<times> schema_state"
  and each_graph_item :: "json list \<Rightarrow> schema_state \<Rightarrow> outcome \<times> schema_state"
  and each_value :: "json list \<Rightarrow> schema_state \<Rightarrow> outcome \<times> schema_state"
  and each_item :: "json list \<Rightarrow> schema_state \<Rightarrow> outcome \<times> schema_state"
where
  "extractSchemaTypes schema st =
     (if \<not> truthy schema then (Returned, st)
      else (case graph_items schema of
              Some items \<Rightarrow> each_graph_item items st
            | None \<Rightarrow>
                (case add_types (type_list schema) st of
                   (Returned, st') \<Rightarrow> each_value (object_values schema) st'
                 | (Thrown e, st') \<Rightarrow> (Thrown e, st'))))"
| "each_graph_item [] st = (Returned, st)"
| "each_graph_item (item # items) st =
     (case extractSchemaTypes item st of
        (Returned, st') \<Rightarrow> each_graph_item items st'
      | (Thrown e, st') \<Rightarrow> (Thrown e, st'))"
| "each_value [] st = (Returned, st)"
| "each_value (v # vs) st =
     (case (if truthy v \<and> typeof_object v \<and> \<not> is_array v then extractSchemaTypes v st
            else (case v of JArr items \<Rightarrow> each_item items st | _ \<Rightarrow> (Returned, st))) of
        (Returned, st') \<Rightarrow> each_value vs st'
      | (Thrown e, st') \<Rightarrow> (Thrown e, st'))"
| "each_item [] st = (Returned, st)"
| "each_item (item # items) st =
     (case (if truthy item \<and> typeof_object item then extractSchemaTypes item st
            else (Returned, st)) of
        (Returned, st') \<Rightarrow> each_item items st'
      | (Thrown e, st') \<Rightarrow> (Thrown e, st'))"
  by pat_completeness auto
termination
proof -
  have pos: "0 < weight j" for j
    by (cases j) simp_all
  have inner_pos: "0 < inner_weight j" for j
    using pos [of j] by (simp add: inner_weight_def)
  have inner_le: "sum_list (map inner_weight xs) \<le> sum_list (map weight xs)" for xs
  proof (induction xs)
    case (Cons a xs)
    then show ?case using pos [of a] by (auto simp: inner_weight_def)
  qed simp
  have look: "weight v \<le> sum_list (map (\<lambda>kv. weight (snd kv)) kvs)"
    if "map_of kvs k = Some v" for k v and kvs :: "(string \<times> json) list"
    using that by (induction kvs) (auto split: if_splits)
  have graph: "Suc (Suc (sum_list (map weight items))) \<le> weight schema"
    if "graph_items schema = Some items" for schema items
  proof -
    from that obtain kvs where "schema = JObj kvs" "map_of kvs ''@graph'' = Some (JArr items)"
      by (cases schema) (auto simp: graph_items_def split: option.splits json.splits)
    then show ?thesis using look [of kvs "''@graph''" "JArr items"] by simp
  qed
  have vals: "sum_list (map inner_weight (object_values j)) < weight j" for j
  proof (cases j)
    case (JStr s)
    have "sum_list (map inner_weight (map (\<lambda>c. JStr [c]) s)) = length s"
      by (induction s) (auto simp: inner_weight_def)
    then show ?thesis using JStr by simp
  next
    case (JArr xs)
    then show ?thesis using inner_le [of xs] by simp
  next
    case (JObj kvs)
    then show ?thesis using inner_le [of "map snd kvs"] by (simp add: comp_def)
  qed simp_all
  show ?thesis
    apply (relation "measure
      (\<lambda>x. case x of
         Inl (Inl (j, st)) \<Rightarrow> 2 * weight j
       | Inl (Inr (xs, st)) \<Rightarrow> 2 * sum_list (map weight xs) + 1
       | Inr (Inl (xs, st)) \<Rightarrow> 2 * sum_list (map inner_weight xs) + 1
       | Inr (Inr (xs, st)) \<Rightarrow> 2 * sum_list (map inner_weight xs) + 1)")
             apply simp_all
    subgoal for schema using vals [of schema] by simp
    subgoal for schema items using graph [of schema items] by simp
    subgoal for item by (rule pos)
    subgoal for v by (simp add: inner_weight_def)
    subgoal for v vs items using inner_le [of items] by (simp add: inner_weight_def)
    subgoal for v by (rule inner_pos)
    subgoal for item by (simp add: inner_weight_def)
    subgoal for item by (rule inner_pos)
    done
qed

declare extractSchemaTypes.simps [simp del]

text \<open>
  The walk as the specification words it: the sequence of the \<^verbatim>\<open>@type\<close> values met,
  in the order met. A value with a \<^verbatim>\<open>@graph\<close> array stands for its members and is not
  a node itself; any other node gives its own types first, then those of every property
  value that is an object and of every object or array inside a property value that is an
  array.
\<close>

function encountered :: "json \<Rightarrow> json list" where
  "encountered schema =
     (if \<not> truthy schema then []
      else (case graph_items schema of
              Some members \<Rightarrow> concat (map encountered members)
            | None \<Rightarrow>
                type_list schema @
                concat (map (\<lambda>v. if truthy v \<and> typeof_object v \<and> \<not> is_array v
                                  then encountered v
                                  else (case v of
                                          JArr items \<Rightarrow>
                                            concat (map (\<lambda>item. if truthy item \<and> typeof_object item
                                                                then encountered item else [])
                                                      items)
                                        | _ \<Rightarrow> []))
                         (object_values schema))))"
  by pat_completeness auto
termination
proof -
  have pos: "0 < weight j" for j
    by (cases j) simp_all
  have mem: "weight x \<le> sum_list (map weight xs)" if "x \<in> set xs" for x xs
    using that by (induction xs) auto
  have look: "weight v \<le> sum_list (map (\<lambda>kv. weight (snd kv)) kvs)"
    if "map_of kvs k = Some v" for k v and kvs :: "(string \<times> json) list"
    using that by (induction kvs) (auto split: if_splits)
  have graph: "weight x < weight schema"
    if "graph_items schema = Some members" "x \<in> set members" for schema members x
  proof -
    from that obtain kvs where "schema = JObj kvs" "map_of kvs ''@graph'' = Some (JArr members)"
      by (cases schema) (auto simp: graph_items_def split: option.splits json.splits)
    then show ?thesis
      using look [of kvs "''@graph''" "JArr members"] mem [OF that(2)] by simp
  qed
  have vals: "weight v < weight schema"
    if "v \<in> set (object_values schema)" "typeof_object v" "truthy v" for v schema
  proof (cases schema)
    case (JArr xs)
    then show ?thesis using that mem [of v xs] by simp
  next
    case (JObj kvs)
    then show ?thesis using that mem [of v "map snd kvs"] by (simp add: comp_def)
  qed (use that in auto)
  have items: "weight item < weight schema"
    if "JArr xs \<in> set (object_values schema)" "item \<in> set xs" for item xs schema
    using vals [of "JArr xs" schema] that mem [of item xs] by simp
  show ?thesis
    apply (relation "measure weight")
       apply simp
    subgoal for schema v using vals [of v schema] by simp
    subgoal for schema v xs item using items [of xs schema item] by simp
    subgoal for schema members x using graph [of schema members x] by simp
    done
qed

declare encountered.simps [simp del]

text \<open>
  An ordered set in first-seen order: of the occurrences of each element the first one
  stays.
\<close>

definition first_seen :: "'a list \<Rightarrow> 'a list" where
  "first_seen xs = rev (remdups (rev xs))"

text \<open>
  A type is a string in JSON-LD; a falsy entry (\<^verbatim>\<open>null\<close>, the empty string) is no
  type at all and the walk passes over it.
\<close>

fun is_string :: "json \<Rightarrow> bool" where
  "is_string (JStr s) = True"
| "is_string v = False"

definition string_typed :: "json list \<Rightarrow> bool" where
  "string_typed ts = list_all (\<lambda>t. is_string t \<or> \<not> truthy t) ts"

text \<open>
  What the walk keeps true of its variables: the identity flag is set exactly when an
  identity type is in the list, the identity type is then the last of those in the list,
  no identity type is listed twice, and the local-business flag is only set once a type
  is listed.
\<close>

definition identity_inv :: "schema_state \<Rightarrow> bool" where
  "identity_inv st =
     (hasIdentitySchema st = (filter is_identity (schemaTypes st) \<noteq> []) \<and>
      (if filter is_identity (schemaTypes st) = [] then True
       else identityType st = last (filter is_identity (schemaTypes st))) \<and>
      distinct (filter is_identity (schemaTypes st)) \<and>
      (if hasLocalBusinessSchema st then schemaTypes st \<noteq> [] else True))"

text \<open>A script that names two identity types.\<close>

definition two_identities :: json where
  "two_identities = JObj [(''@type'', JArr [JStr ''Organization'', JStr ''Person''])]"

text \<open>A script with a graph of two members, one type met twice and two types nested.\<close>

definition graph_script :: json where
  "graph_script =
     JObj [(''@context'', JStr ''https://schema.org''),
           (''@graph'',
            JArr [JObj [(''@type'', JStr ''Organization''),
                        (''founder'', JObj [(''@type'', JStr ''Person'')])],
                  JObj [(''@type'', JArr [JStr ''WebSite'', JStr ''Organization'']),
                        (''offers'', JArr [JObj [(''@type'', JStr ''Offer'')]])]])]"

text \<open>
  The types a value declares, as the specification words them for the members of a graph:
  the \<^verbatim>\<open>@type\<close> values of the node itself and of every node nested in it, at any
  depth, in document order.
\<close>

fun declared_types :: "json \<Rightarrow> json list" where
  "declared_types (JObj props) =
     type_list (JObj props) @ concat (map (\<lambda>kv. declared_types (snd kv)) props)"
| "declared_types (JArr items) = concat (map declared_types items)"
| "declared_types v = []"

text \<open>A value none of whose nodes has a \<^verbatim>\<open>@graph\<close> array of its own.\<close>

fun graph_free :: "json \<Rightarrow> bool" where
  "graph_free (JObj props) =
     (graph_items (JObj props) = None \<and> list_all (\<lambda>kv. graph_free (snd kv)) props)"
| "graph_free (JArr items) = list_all graph_free items"
| "graph_free v = True"

text \<open>
  A graph of one member, which has a type, a typed author and an empty \<^verbatim>\<open>@graph\<close>
  array of its own.
\<close>

definition named_member :: json where
  "named_member =
     JObj [(''@type'', JStr ''WebPage''),
           (''@graph'', JArr []),
           (''author'', JObj [(''@type'', JStr ''Person'')])]"

definition named_graph_script :: json where
  "named_graph_script = JObj [(''@graph'', JArr [named_member])]"

text \<open>
  One \<^verbatim>\<open><script type="application/ld+json">\<close> element, as the analyzer meets it:
  \<^verbatim>\<open>$(el).html()\<close> is empty or \<^verbatim>\<open>null\<close>, or \<^verbatim>\<open>JSON.parse\<close> throws a
  \<^verbatim>\<open>SyntaxError\<close>, or it returns a value. The parser is the runtime's.
\<close>

datatype ldscript = NoContent | Malformed | Parsed json

text \<open>
  \<^verbatim>\<open>
  ldJsonScripts.each((_, el) => {
    try {
      const jsonContent = $(el).html();
      if (jsonContent) {
        const schema = JSON.parse(jsonContent);
        extractSchemaTypes(schema);
      }
    } catch (error) {
      console.log('[ANALYZER] Invalid JSON-LD schema:', error.message);
    }
  });
  \<close>
\<close>

fun script_body :: "ldscript \<Rightarrow> schema_state \<Rightarrow> outcome \<times> schema_state" where
  "script_body NoContent st = (Returned, st)"
| "script_body Malformed st = (Thrown SyntaxError, st)"
| "script_body (Parsed schema) st = extractSchemaTypes schema st"

text \<open>\<^verbatim>\<open>try { ... } catch (error) { console.log(...) }\<close>: the handler only logs.\<close>

definition try_catch :: "outcome \<times> 's \<Rightarrow> outcome \<times> 's" where
  "try_catch r = (case r of (Returned, st) \<Rightarrow> (Returned, st) | (Thrown e, st) \<Rightarrow> (Returned, st))"

fun each_script :: "ldscript list \<Rightarrow> schema_state \<Rightarrow> outcome \<times> schema_state" where
  "each_script [] st = (Returned, st)"
| "each_script (s # ss) st =
     (case try_catch (script_body s st) of
        (Returned, st') \<Rightarrow> each_script ss st'
      | (Thrown e, st') \<Rightarrow> (Thrown e, st'))"

text \<open>A document of four scripts: the second does not parse, the third is empty.\<close>

definition mixed_scripts :: "ldscript list" where
  "mixed_scripts = [Parsed two_identities, Malformed, NoContent, Parsed graph_script]"

text \<open>\<^verbatim>\<open>identityType: hasIdentitySchema ? identityType : undefined\<close>\<close>

definition reported_identityType :: "schema_state \<Rightarrow> json option" where
  "reported_identityType st = (if hasIdentitySchema st then Some (identityType st) else None)"


section \<open>Page facts\<close>

text \<open>
  \<^verbatim>\<open>
  const metaTags = {
    hasTitle: title.length > 0,
    titleLength: title.length,
    hasDescription: description.length > 0,
    descriptionLength: description.length,
    hasViewport: viewport.length > 0,
    hasOgTags: ogTags > 0,
    hasTwitterCard: twitterCard > 0,
  };
  \<close>
  on the title after its clean-up and the two \<^verbatim>\<open>content\<close> attributes (empty when absent).
\<close>

record metaTags =
  hasTitle :: bool
  titleLength :: nat
  hasDescription :: bool
  descriptionLength :: nat
  hasViewport :: bool
  hasOgTags :: bool
  hasTwitterCard :: bool

definition mk_metaTags :: "string \<Rightarrow> string \<Rightarrow> string \<Rightarrow> nat \<Rightarrow> nat \<Rightarrow> metaTags" where
  "mk_metaTags title description viewport ogTags twitterCard =
     \<lparr>hasTitle = (length title > 0), titleLength = length title,
      hasDescription = (length description > 0), descriptionLength = length description,
      hasViewport = (length viewport > 0), hasOgTags = (ogTags > 0),
      hasTwitterCard = (twitterCard > 0)\<rparr>"

text \<open>
  \<^verbatim>\<open>
  const h1Text = h1Elements.map((_, el) => $(el).text().trim()).get()
    .filter((text) => text.length > 0);
  const headings = { h1Count: h1Elements.length, h2Count: $("h2").length, ...,
                     hasH1: h1Elements.length > 0, h1Text: h1Text };
  \<close>
  The first argument holds the text of every \<^verbatim>\<open>h1\<close> element, the second the numbers
  of \<^verbatim>\<open>h2\<close> to \<^verbatim>\<open>h6\<close> elements.
\<close>

record headings =
  h1Count :: nat
  h2Count :: nat
  h3Count :: nat
  h4Count :: nat
  h5Count :: nat
  h6Count :: nat
  hasH1 :: bool
  h1Text :: "string list"

definition mk_headings :: "string list \<Rightarrow> nat \<times> nat \<times> nat \<times> nat \<times> nat \<Rightarrow> headings" where
  "mk_headings h1Elements counts =
     (case counts of (n2, n3, n4, n5, n6) \<Rightarrow>
        \<lparr>h1Count = length h1Elements, h2Count = n2, h3Count = n3, h4Count = n4,
         h5Count = n5, h6Count = n6, hasH1 = (length h1Elements > 0),
         h1Text = filter (\<lambda>text. length text > 0) (map trim h1Elements)\<rparr>)"

text \<open>
  An \<^verbatim>\<open>img\<close> element is its two attributes, \<open>None\<close> where \<^verbatim>\<open>attr\<close> returns
  \<^verbatim>\<open>undefined\<close>.
  \<^verbatim>\<open>
  images.each((i, img) => {
    const src = $img.attr("src") || '';
    const alt = $img.attr("alt");
    const hasAlt = alt !== undefined && alt !== null && alt.trim().length > 0;
    const imageData = { src: src, alt: alt || '', hasAlt: hasAlt };
    imagesList.push(imageData);
    if (hasAlt) { imagesWithAlt++; imagesWithAltList.push(imageData); }
    else { imagesWithoutAltList.push(imageData); }
  });
  \<close>
\<close>

record img =
  attr_src :: "string option"
  attr_alt :: "string option"

record imageData =
  src :: string
  alt :: string
  hasAlt :: bool

record image_loop =
  imagesWithAlt :: nat
  imagesList :: "imageData list"
  imagesWithAltList :: "imageData list"
  imagesWithoutAltList :: "imageData list"

definition has_alt :: "img \<Rightarrow> bool" where
  "has_alt i = (case attr_alt i of None \<Rightarrow> False | Some a \<Rightarrow> length (trim a) > 0)"

definition image_data :: "img \<Rightarrow> imageData" where
  "image_data i =
     \<lparr>src = (case attr_src i of None \<Rightarrow> [] | Some s \<Rightarrow> s),
      alt = (case attr_alt i of None \<Rightarrow> [] | Some a \<Rightarrow> a),
      hasAlt = has_alt i\<rparr>"

definition image_step :: "img \<Rightarrow> image_loop \<Rightarrow> image_loop" where
  "image_step i st =
     (let st1 = st\<lparr>imagesList := imagesList st @ [image_data i]\<rparr>
      in if has_alt i
         then st1\<lparr>imagesWithAlt := imagesWithAlt st1 + 1,
                  imagesWithAltList := imagesWithAltList st1 @ [image_data i]\<rparr>
         else st1\<lparr>imagesWithoutAltList := imagesWithoutAltList st1 @ [image_data i]\<rparr>)"

fun each_image :: "img list \<Rightarrow> image_loop \<Rightarrow> image_loop" where
  "each_image [] st = st"
| "each_image (i # is) st = each_image is (image_step i st)"

text \<open>
  \<^verbatim>\<open>
  const totalImages = images.length;
  const imagesData = {
    total: totalImages,
    withAlt: imagesWithAlt,
    withoutAlt: totalImages - imagesWithAlt,
    altPercentage:
      totalImages > 0 ? Math.round((imagesWithAlt / totalImages) * 100) : 100,
    all: imagesList, withAltList: imagesWithAltList, withoutAltList: imagesWithoutAltList
  };
  \<close>
  The subtraction is the one of JavaScript numbers, which does not stop at zero, so
  \<open>withoutAlt\<close> is an integer; the percentage is \<open>None\<close> when it is not a finite
  number.
\<close>

record imagesData =
  totalImages :: nat
  withAlt :: nat
  withoutAlt :: int
  altPercentage :: "nat option"
  allImages :: "imageData list"
  withAltList :: "imageData list"
  withoutAltList :: "imageData list"

definition mk_imagesData :: "img list \<Rightarrow> imagesData" where
  "mk_imagesData images =
     (let st = each_image images
                 \<lparr>imagesWithAlt = 0, imagesList = [], imagesWithAltList = [],
                  imagesWithoutAltList = []\<rparr>;
          n = length images
      in \<lparr>totalImages = n,
          withAlt = imagesWithAlt st,
          withoutAlt = int n - int (imagesWithAlt st),
          altPercentage =
            (if n > 0 then js_percent (imagesWithAlt st) n else Some 100),
          allImages = imagesList st,
          withAltList = imagesWithAltList st,
          withoutAltList = imagesWithoutAltList st\<rparr>)"

text \<open>
  \<^verbatim>\<open>
  const bodyText = $("body").text().replace(/\s+/g, " ").trim();
  const wordCount = bodyText.split(/\s+/).length;
  const content = { wordCount: wordCount, textLength: bodyText.length };
  \<close>
\<close>

record content =
  wordCount :: nat
  textLength :: nat

definition bodyText_of :: "string \<Rightarrow> string" where
  "bodyText_of body = trim (collapse_ws body)"

definition mk_content :: "string \<Rightarrow> content" where
  "mk_content body =
     \<lparr>wordCount = length (split_ws (bodyText_of body)),
      textLength = length (bodyText_of body)\<rparr>"

text \<open>
  \<^verbatim>\<open>
  const hasGoogleAnalytics = html.includes("google-analytics.com/analytics.js") ||
    html.includes("googletagmanager.com/gtag/js") || html.includes("gtag(") ||
    html.includes("ga(");
  const hasFacebookPixel = html.includes("facebook.net/en_US/fbevents.js") ||
    html.includes("fbq(");
  \<close>
\<close>

definition detect_analytics :: "string \<Rightarrow> bool" where
  "detect_analytics html =
     ((str_includes html ''google-analytics.com/analytics.js'' \<or>
       str_includes html ''googletagmanager.com/gtag/js'' \<or>
       str_includes html ''gtag('' \<or> str_includes html ''ga('') \<or>
      (str_includes html ''facebook.net/en_US/fbevents.js'' \<or> str_includes html ''fbq(''))"

text \<open>
  The technical record. The two probes of \<^verbatim>\<open>robots.txt\<close> and \<^verbatim>\<open>sitemap.xml\<close> and the
  attribute queries for microdata and RDFa arrive as booleans.
\<close>

record technicalSEO =
  hasRobotsTxt :: bool
  hasSitemap :: bool
  hasSSL :: bool
  isResponsive :: bool
  hasAnalytics :: bool
  hasSchema :: bool
  hasJsonLd :: bool
  structuredData :: schema_state
  renderingPct :: "nat option"
  hasMicrodata :: bool
  hasRDFa :: bool

text \<open>
  \<^verbatim>\<open>
  const hasAnyStructuredData = schemaTypes.length > 0 || hasMicrodata || hasRDFa;
  const hasJsonLd = ldJsonScripts.length > 0 && schemaTypes.length > 0;
  \<close>
\<close>

definition mk_technicalSEO ::
  "bool \<Rightarrow> bool \<Rightarrow> bool \<Rightarrow> string \<Rightarrow> string \<Rightarrow> string \<Rightarrow> ldscript list \<Rightarrow> bool \<Rightarrow> bool
   \<Rightarrow> technicalSEO" where
  "mk_technicalSEO isSSL robots sitemap viewport html body ldJsonScripts microdata rdfa =
     (let st = snd (each_script ldJsonScripts init_schema_state)
      in \<lparr>hasRobotsTxt = robots, hasSitemap = sitemap, hasSSL = isSSL,
          isResponsive = (length viewport > 0),
          hasAnalytics = detect_analytics html,
          hasSchema = (length (schemaTypes st) > 0 \<or> microdata \<or> rdfa),
          hasJsonLd = (length ldJsonScripts > 0 \<and> length (schemaTypes st) > 0),
          structuredData = st,
          renderingPct = renderingPercentage (length (bodyText_of body)) (length html),
          hasMicrodata = microdata, hasRDFa = rdfa\<rparr>)"

section \<open>Social links\<close>

text \<open>
  \<^verbatim>\<open>
  $("a[href]").each((_, el) => {
    const href = $(el).attr("href") || "";
    if (href.includes("facebook.com/") && !facebookUrl) { facebookUrl = href; }
    if (href.includes("instagram.com/") && !instagramUrl) { instagramUrl = href; }
    if (href.includes("twitter.com/") || href.includes("x.com/")) {
      if (!twitterUrl) twitterUrl = href;
    }
    if (href.includes("linkedin.com/") && !linkedInUrl) { linkedInUrl = href; }
    if (href.includes("youtube.com/") && !youTubeUrl) { youTubeUrl = href; }
  });
  const ogFacebook = $('meta[property="og:url"]').attr("content") || "";
  if (ogFacebook.includes("facebook.com/") && !facebookUrl) { facebookUrl = ogFacebook; }
  \<close>
\<close>

record social_urls =
  facebookUrl :: string
  instagramUrl :: string
  twitterUrl :: string
  linkedInUrl :: string
  youTubeUrl :: string

definition href_step :: "string \<Rightarrow> social_urls \<Rightarrow> social_urls" where
  "href_step href u =
     (let u1 = (if str_includes href ''facebook.com/'' \<and> facebookUrl u = []
                then u\<lparr>facebookUrl := href\<rparr> else u);
          u2 = (if str_includes href ''instagram.com/'' \<and> instagramUrl u1 = []
                then u1\<lparr>instagramUrl := href\<rparr> else u1);
          u3 = (if str_includes href ''twitter.com/'' \<or> str_includes href ''x.com/''
                then (if twitterUrl u2 = [] then u2\<lparr>twitterUrl := href\<rparr> else u2) else u2);
          u4 = (if str_includes href ''linkedin.com/'' \<and> linkedInUrl u3 = []
                then u3\<lparr>linkedInUrl := href\<rparr> else u3)
      in if str_includes href ''youtube.com/'' \<and> youTubeUrl u4 = []
         then u4\<lparr>youTubeUrl := href\<rparr> else u4)"

fun each_href :: "string list \<Rightarrow> social_urls \<Rightarrow> social_urls" where
  "each_href [] u = u"
| "each_href (h # hs) u = each_href hs (href_step h u)"

record social =
  hasFacebookPage :: bool
  hasInstagram :: bool
  hasTwitter :: bool
  hasLinkedIn :: bool
  hasYouTube :: bool

definition mk_social :: "string list \<Rightarrow> string \<Rightarrow> social" where
  "mk_social hrefs ogFacebook =
     (let u = each_href hrefs
                \<lparr>facebookUrl = [], instagramUrl = [], twitterUrl = [], linkedInUrl = [],
                 youTubeUrl = []\<rparr>;
          u' = (if str_includes ogFacebook ''facebook.com/'' \<and> facebookUrl u = []
                then u\<lparr>facebookUrl := ogFacebook\<rparr> else u)
      in \<lparr>hasFacebookPage = (length (facebookUrl u') > 0),
          hasInstagram = (length (instagramUrl u') > 0),
          hasTwitter = (length (twitterUrl u') > 0),
          hasLinkedIn = (length (linkedInUrl u') > 0),
          hasYouTube = (length (youTubeUrl u') > 0)\<rparr>)"


section \<open>Contact facts: phone\<close>

text \<open>
  The four phone patterns run over the body text in their order and every match is
  pushed; the matches of each pattern, which the regular-expression engine finds, are the
  first argument. Then the \<^verbatim>\<open>tel:\<close> links, in document order:
  \<^verbatim>\<open>
  telLinks.each((_, el) => {
    const displayText = $(el).text().trim();
    if (displayText && /\d/.test(displayText)) {
      phoneMatches.unshift({ source: 'tel:link', value: displayText });
    }
  });
  let validPhone = null;
  if (phoneMatches.length > 0) { validPhone = phoneMatches[0].value; }
  \<close>
  A match is the pair of its source and its value.
\<close>

definition body_phoneMatches :: "string list list \<Rightarrow> (string \<times> string) list" where
  "body_phoneMatches patternMatches = map (\<lambda>m. (''bodyText'', m)) (concat patternMatches)"

definition tel_step :: "string \<Rightarrow> (string \<times> string) list \<Rightarrow> (string \<times> string) list" where
  "tel_step text phoneMatches =
     (let displayText = trim text
      in if displayText \<noteq> [] \<and> has_digit displayText
         then (''tel:link'', displayText) # phoneMatches else phoneMatches)"

fun each_tel :: "string list \<Rightarrow> (string \<times> string) list \<Rightarrow> (string \<times> string) list" where
  "each_tel [] phoneMatches = phoneMatches"
| "each_tel (t # ts) phoneMatches = each_tel ts (tel_step t phoneMatches)"

definition validPhone :: "string list list \<Rightarrow> string list \<Rightarrow> string option" where
  "validPhone patternMatches telLinks =
     (case each_tel telLinks (body_phoneMatches patternMatches) of
        [] \<Rightarrow> None
      | m # ms \<Rightarrow> Some (snd m))"


section \<open>Contact facts: address\<close>

text \<open>
  \<^verbatim>\<open>String(v)\<close>, as \<^verbatim>\<open>Array.prototype.join\<close> applies it to each element. An array is
  its elements joined by commas, \<^verbatim>\<open>null\<close> elements as empty strings; an object is
  \<^verbatim>\<open>[object Object]\<close> unless it has a property \<^verbatim>\<open>toString\<close> of its own, which no
  parsed value can call: then the conversion throws.
\<close>

fun join :: "string \<Rightarrow> string list \<Rightarrow> string" where
  "join sep [] = []"
| "join sep [s] = s"
| "join sep (s # t # ts) = s @ sep @ join sep (t # ts)"

fun to_str :: "json \<Rightarrow> error + string"
  and elems_str :: "json list \<Rightarrow> error + string list"
where
  "to_str JNull = Inr ''null''"
| "to_str (JBool b) = Inr (if b then ''true'' else ''false'')"
| "to_str (JNum n) = Inr n"
| "to_str (JStr s) = Inr s"
| "to_str (JArr xs) = (case elems_str xs of Inl e \<Rightarrow> Inl e | Inr ss \<Rightarrow> Inr (join '','' ss))"
| "to_str (JObj kvs) =
     (if ''toString'' \<in> set (map fst kvs) then Inl TypeError else Inr ''[object Object]'')"
| "elems_str [] = Inr []"
| "elems_str (x # xs) =
     (case (if x = JNull then Inr [] else to_str x) of
        Inl e \<Rightarrow> Inl e
      | Inr s \<Rightarrow> (case elems_str xs of Inl e \<Rightarrow> Inl e | Inr ss \<Rightarrow> Inr (s # ss)))"

text \<open>
  \<^verbatim>\<open>
  const extractAddress = (obj) => {
    if (obj.address) {
      if (typeof obj.address === 'string' && obj.address.length > 15) {
        return obj.address;
      } else if (obj.address.streetAddress) {
        const addr = obj.address;
        const parts = [addr.streetAddress, addr.addressLocality,
                       addr.addressRegion, addr.postalCode].filter(Boolean);
        return parts.join(', ');
      }
    }
    return null;
  };
  \<close>
  \<open>Inr None\<close> is the result \<^verbatim>\<open>null\<close>. Reading \<^verbatim>\<open>obj.address\<close> throws when
  \<^verbatim>\<open>obj\<close> is \<^verbatim>\<open>null\<close>.
\<close>

definition address_parts :: "json \<Rightarrow> json list" where
  "address_parts addr =
     concat (map (\<lambda>k. case get addr k of
                          None \<Rightarrow> []
                        | Some v \<Rightarrow> if truthy v then [v] else [])
       [''streetAddress'', ''addressLocality'', ''addressRegion'', ''postalCode''])"

definition extractAddress :: "json \<Rightarrow> error + string option" where
  "extractAddress obj =
     (if obj = JNull then Inl TypeError
      else (case get obj ''address'' of
              None \<Rightarrow> Inr None
            | Some a \<Rightarrow>
                if \<not> truthy a then Inr None
                else (case a of
                        JStr s \<Rightarrow> if length s > 15 then Inr (Some s) else Inr None
                      | _ \<Rightarrow>
                          if truthy_opt (get a ''streetAddress'')
                          then (case elems_str (address_parts a) of
                                  Inl e \<Rightarrow> Inl e
                                | Inr ss \<Rightarrow> Inr (Some (join '', '' ss)))
                          else Inr None)))"

text \<open>
  \<^verbatim>\<open>
  let addr = null;
  if (schema['@graph']) {
    for (const item of schema['@graph']) {
      addr = extractAddress(item);
      if (addr) break;
    }
  } else {
    addr = extractAddress(schema);
  }
  \<close>
  \<^verbatim>\<open>for ... of\<close> iterates an array by its elements and a string by its characters;
  a number, \<^verbatim>\<open>true\<close> or an object is not iterable and the loop throws. A result that
  is the empty string is falsy, like \<^verbatim>\<open>null\<close>, for the test of the loop and for the
  test that follows it, so \<open>first_address\<close> returns \<open>None\<close> for both.
\<close>

fun iterate :: "json \<Rightarrow> error + json list" where
  "iterate (JArr xs) = Inr xs"
| "iterate (JStr s) = Inr (map (\<lambda>c. JStr [c]) s)"
| "iterate v = Inl TypeError"

fun first_address :: "json list \<Rightarrow> error + string option" where
  "first_address [] = Inr None"
| "first_address (item # items) =
     (case extractAddress item of
        Inl e \<Rightarrow> Inl e
      | Inr None \<Rightarrow> first_address items
      | Inr (Some a) \<Rightarrow> if a \<noteq> [] then Inr (Some a) else first_address items)"

fun script_address :: "ldscript \<Rightarrow> error + string option" where
  "script_address NoContent = Inr None"
| "script_address Malformed = Inl SyntaxError"
| "script_address (Parsed schema) =
     (if schema = JNull then Inl TypeError
      else if truthy_opt (get schema ''@graph'')
      then (case iterate (the (get schema ''@graph'')) of
              Inl e \<Rightarrow> Inl e
            | Inr items \<Rightarrow> first_address items)
      else extractAddress schema)"

text \<open>
  \<^verbatim>\<open>
  ldJsonScripts.each((_, el) => {
    try {
      ...
      if (addr && addr.length > 15) {
        hasAddress = true;
        addressText = addr;
        addressSource = 'Schema.org';
        return false; // break the each loop
      }
    } catch (e) {
      // Skip invalid JSON
    }
  });
  \<close>
\<close>

record address_state =
  hasAddress :: bool
  addressText :: "string option"
  addressSource :: "string option"

fun each_address_script :: "ldscript list \<Rightarrow> address_state \<Rightarrow> address_state" where
  "each_address_script [] st = st"
| "each_address_script (s # ss) st =
     (case script_address s of
        Inl e \<Rightarrow> each_address_script ss st
      | Inr None \<Rightarrow> each_address_script ss st
      | Inr (Some addr) \<Rightarrow>
          if length addr > 15
          then st\<lparr>hasAddress := True, addressText := Some addr,
                  addressSource := Some ''Schema.org''\<rparr>
          else each_address_script ss st)"

text \<open>
  The sources tried when no script gave an address. The matches of the two regular
  expressions over the body text, the texts of the microdata elements and the texts of
  the elements of each of the eight selectors are what the engine and the document
  queries return; the candidates are pushed in this order and the first one is used.
  \<^verbatim>\<open>
  const addrText = $(el).text().trim().replace(/\s+/g, ' ');
  if (addrText.length > 15 && addrText.length < 200) { ... 'Microdata itemprop' }
  if (addrText.length > 15 && addrText.length < 200 && /\d/.test(addrText)) {
    ... `CSS selector: ${selector}` }
  if (addressCandidates.length > 0) {
    hasAddress = true;
    addressText = addressCandidates[0].text.trim();
    addressSource = addressCandidates[0].source;
  }
  \<close>
\<close>

record address_sources =
  usMatches :: "string list"
  poBoxMatches :: "string list"
  microdataTexts :: "string list"
  selectorTexts :: "string list list"

definition class_contains :: "string \<Rightarrow> string" where
  "class_contains w = ''[class*='' @ [CHR 0x22] @ w @ [CHR 0x22] @ '']''"

definition addressSelectors :: "string list" where
  "addressSelectors =
     [''.address'', ''#address'', class_contains ''address'',
      ''.location'', ''#location'', class_contains ''location'',
      ''.contact-info'', ''.contact-address'']"

definition microdata_candidates :: "string list \<Rightarrow> (string \<times> string) list" where
  "microdata_candidates texts =
     map (\<lambda>t. (t, ''Microdata itemprop''))
       (filter (\<lambda>t. length t > 15 \<and> length t < 200) (map (\<lambda>t. collapse_ws (trim t)) texts))"

definition selector_candidates :: "string \<times> string list \<Rightarrow> (string \<times> string) list" where
  "selector_candidates x =
     (case x of (selector, texts) \<Rightarrow>
        map (\<lambda>t. (t, ''CSS selector: '' @ selector))
          (filter (\<lambda>t. length t > 15 \<and> length t < 200 \<and> has_digit t)
             (map (\<lambda>t. collapse_ws (trim t)) texts)))"

definition addressCandidates :: "address_sources \<Rightarrow> (string \<times> string) list" where
  "addressCandidates srcs =
     map (\<lambda>m. (m, ''US address pattern'')) (usMatches srcs) @
     map (\<lambda>m. (m, ''PO Box pattern'')) (poBoxMatches srcs) @
     microdata_candidates (microdataTexts srcs) @
     concat (map selector_candidates (zip addressSelectors (selectorTexts srcs)))"

definition detect_address :: "ldscript list \<Rightarrow> address_sources \<Rightarrow> address_state" where
  "detect_address ldJsonScripts srcs =
     (let st = each_address_script ldJsonScripts
                 \<lparr>hasAddress = False, addressText = None, addressSource = None\<rparr>
      in if \<not> hasAddress st
         then (case addressCandidates srcs of
                 [] \<Rightarrow> st
               | c # cs \<Rightarrow> st\<lparr>hasAddress := True, addressText := Some (trim (fst c)),
                               addressSource := Some (snd c)\<rparr>)
         else st)"

text \<open>
  The candidate a script yields for the address: the result of the extraction above when
  it is a string longer than 15 characters, the test the loop accepts it by. A script
  that throws or has no such string yields none.
\<close>

definition ld_candidate :: "ldscript \<Rightarrow> string option" where
  "ld_candidate s =
     (case script_address s of
        Inl e \<Rightarrow> None
      | Inr None \<Rightarrow> None
      | Inr (Some addr) \<Rightarrow> if length addr > 15 then Some addr else None)"

definition yields_address :: "ldscript \<Rightarrow> bool" where
  "yields_address s = (ld_candidate s \<noteq> None)"

text \<open>The address of the pattern, microdata and selector sources alone.\<close>

definition fallback_address :: "address_sources \<Rightarrow> address_state" where
  "fallback_address srcs =
     (case addressCandidates srcs of
        [] \<Rightarrow> \<lparr>hasAddress = False, addressText = None, addressSource = None\<rparr>
      | c # cs \<Rightarrow> \<lparr>hasAddress = True, addressText = Some (trim (fst c)),
                   addressSource = Some (snd c)\<rparr>)"






definition no_address :: "json \<Rightarrow> bool" where
  "no_address node = (\<not> truthy_opt (get node ''address''))"







section \<open>The scoring engine\<close>

text \<open>
  The 100-point score. Each rule adds a fixed number of points to the running total of
  its category; the messages pushed to \<^verbatim>\<open>scoreBreakdown.details\<close> beside each award
  carry no state of their own and are left out.
\<close>

record scoreBreakdown =
  onPage :: int
  technical :: int
  local :: int
  social :: int

text \<open>Title tag, 12 points.\<close>

definition title_points :: "metaTags \<Rightarrow> int" where
  "title_points m =
     (if hasTitle m then
        (if titleLength m \<ge> 50 \<and> titleLength m \<le> 60 then 12
         else if titleLength m \<ge> 30 \<and> titleLength m \<le> 70 then 4
         else 1)
      else 0)"

text \<open>Meta description, 8 points.\<close>

definition description_points :: "metaTags \<Rightarrow> int" where
  "description_points m =
     (if hasDescription m then
        (if descriptionLength m \<ge> 120 \<and> descriptionLength m \<le> 160 then 8
         else if descriptionLength m \<ge> 50 \<and> descriptionLength m \<le> 200 then 2
         else 1)
      else 0)"

text \<open>
  H1 tag, 8 points:
  \<^verbatim>\<open>
  if (headings.h1Count === 1) {
    if (headings.h1Text.length > 0 && headings.h1Text[0].length >= 20) { += 8 }
    else { += 1 }
  } else if (headings.h1Count > 1) { += 1 }
  \<close>
\<close>

definition h1_points :: "headings \<Rightarrow> int" where
  "h1_points h =
     (if h1Count h = 1 then
        (case h1Text h of
           [] \<Rightarrow> 1
         | t # ts \<Rightarrow> if length t \<ge> 20 then 8 else 1)
      else if h1Count h > 1 then 1
      else 0)"

text \<open>H2 to H6 headings, 5 points.\<close>

definition hierarchy_points :: "headings \<Rightarrow> int" where
  "hierarchy_points h =
     (if h2Count h \<ge> 3 \<and> (h3Count h \<ge> 2 \<or> h4Count h \<ge> 1) then 5
      else if h2Count h \<ge> 2 then 2
      else 0)"

text \<open>
  Image alt text, 4 points. A comparison with a percentage that is not a number is
  false.
\<close>

definition at_least :: "nat option \<Rightarrow> nat \<Rightarrow> bool" where
  "at_least x n = (case x of None \<Rightarrow> False | Some v \<Rightarrow> v \<ge> n)"

definition alt_points :: "imagesData \<Rightarrow> int" where
  "alt_points i =
     (if totalImages i > 0 then
        (if altPercentage i = Some 100 then 4
         else if at_least (altPercentage i) 80 then 2
         else if at_least (altPercentage i) 50 then 1
         else 0)
      else 2)"

text \<open>Content quality, 8 points.\<close>

definition content_points :: "content \<Rightarrow> int" where
  "content_points c =
     (if wordCount c \<ge> 1000 then 8
      else if wordCount c \<ge> 500 then 3
      else if wordCount c \<ge> 300 then 1
      else if wordCount c \<ge> 50 then 1
      else 0)"

definition onPagePoints :: "metaTags \<Rightarrow> headings \<Rightarrow> imagesData \<Rightarrow> content \<Rightarrow> int" where
  "onPagePoints m h i c =
     0 + title_points m + description_points m + h1_points h + hierarchy_points h +
     alt_points i + content_points c"

text \<open>
  Technical, 30 points: HTTPS 5, robots.txt 3 + 2, sitemap 3 + 2, analytics 3, and
  \<^verbatim>\<open>
  if (technicalSEO.hasSchema) {
    if (technicalSEO.hasJsonLd) { technicalPoints += 12; } else { technicalPoints += 4; }
  }
  \<close>
\<close>

definition technicalPoints :: "technicalSEO \<Rightarrow> int" where
  "technicalPoints t =
     0 + (if hasSSL t then 5 else 0) +
     (if hasRobotsTxt t then 3 + 2 else 0) +
     (if hasSitemap t then 3 + 2 else 0) +
     (if hasAnalytics t then 3 else 0) +
     (if hasSchema t then (if hasJsonLd t then 12 else 4) else 0)"

text \<open>Local, 15 points: phone 3, address 4, local-business schema 8.\<close>

definition localPoints :: "bool \<Rightarrow> bool \<Rightarrow> bool \<Rightarrow> int" where
  "localPoints hasPhone hasAddr hasLocalBusiness =
     0 + (if hasPhone then 3 else 0) + (if hasAddr then 4 else 0) +
     (if hasLocalBusiness then 8 else 0)"

text \<open>Social, 10 points, on the number of the five networks that have a link.\<close>

definition socialLinksCount :: "social \<Rightarrow> nat" where
  "socialLinksCount s =
     0 + (if hasFacebookPage s then 1 else 0) + (if hasInstagram s then 1 else 0) +
     (if hasTwitter s then 1 else 0) + (if hasLinkedIn s then 1 else 0) +
     (if hasYouTube s then 1 else 0)"

definition socialPoints :: "social \<Rightarrow> int" where
  "socialPoints s =
     (if socialLinksCount s \<ge> 2 then 10
      else if socialLinksCount s = 1 then 5
      else 0)"

text \<open>
  \<^verbatim>\<open>
  const score = scoreBreakdown.onPage + scoreBreakdown.technical +
                scoreBreakdown.local + scoreBreakdown.social;
  \<close>
\<close>

definition score_of :: "scoreBreakdown \<Rightarrow> int" where
  "score_of b = onPage b + technical b + local b + social b"

text \<open>
  \<^verbatim>\<open>
  let grade = "F";
  if (score >= 90) grade = "A+";
  else if (score >= 85) grade = "A";
  ...
  else if (score >= 40) grade = "D";
  else if (score >= 35) grade = "D-";
  \<close>
\<close>

definition grade_of :: "int \<Rightarrow> string" where
  "grade_of score =
     (if score \<ge> 90 then ''A+''
      else if score \<ge> 85 then ''A''
      else if score \<ge> 80 then ''A-''
      else if score \<ge> 75 then ''B+''
      else if score \<ge> 70 then ''B''
      else if score \<ge> 65 then ''B-''
      else if score \<ge> 60 then ''C+''
      else if score \<ge> 55 then ''C''
      else if score \<ge> 50 then ''C-''
      else if score \<ge> 45 then ''D+''
      else if score \<ge> 40 then ''D''
      else if score \<ge> 35 then ''D-''
      else ''F'')"


section \<open>The analysis of one rendered page\<close>

text \<open>
  What \<^verbatim>\<open>analyzeSEO\<close> reads after the browser has rendered the page: the serialized
  document, the results of the document queries, of the two probes and of the
  regular-expression engine. The title is the one left by the clean-up of payment
  keywords.
\<close>

record page =
  isSSL :: bool
  html :: string
  bodyRaw :: string
  titleText :: string
  descriptionAttr :: string
  viewportAttr :: string
  ogTags :: nat
  twitterCard :: nat
  h1Elements :: "string list"
  headingCounts :: "nat \<times> nat \<times> nat \<times> nat \<times> nat"
  imgElements :: "img list"
  hrefAttrs :: "string list"
  ogUrlAttr :: string
  robotsOk :: bool
  sitemapOk :: bool
  ldJsonScripts :: "ldscript list"
  microdataPresent :: bool
  rdfaPresent :: bool
  phonePatternMatches :: "string list list"
  telLinkTexts :: "string list"
  addressSources :: address_sources

record localSEO =
  hasPhone :: bool
  phoneNumber :: "string option"
  addressFacts :: address_state
  localBusinessSchema :: bool

record report =
  score :: int
  grade :: string
  breakdown :: scoreBreakdown
  metaFacts :: metaTags
  headingFacts :: headings
  imageFacts :: imagesData
  contentFacts :: content
  technicalFacts :: technicalSEO
  socialFacts :: social
  localFacts :: localSEO

definition analyzeSEO :: "page \<Rightarrow> report" where
  "analyzeSEO p =
     (let m = mk_metaTags (titleText p) (descriptionAttr p) (viewportAttr p) (ogTags p)
                (twitterCard p);
          h = mk_headings (h1Elements p) (headingCounts p);
          i = mk_imagesData (imgElements p);
          c = mk_content (bodyRaw p);
          t = mk_technicalSEO (isSSL p) (robotsOk p) (sitemapOk p) (viewportAttr p) (html p)
                (bodyRaw p) (ldJsonScripts p) (microdataPresent p) (rdfaPresent p);
          s = mk_social (hrefAttrs p) (ogUrlAttr p);
          phone = validPhone (phonePatternMatches p) (telLinkTexts p);
          a = detect_address (ldJsonScripts p) (addressSources p);
          l = \<lparr>hasPhone = (phone \<noteq> None), phoneNumber = phone, addressFacts = a,
               localBusinessSchema = hasLocalBusinessSchema (structuredData t)\<rparr>;
          b = \<lparr>onPage = onPagePoints m h i c,
               technical = technicalPoints t,
               local = localPoints (hasPhone l) (hasAddress a) (localBusinessSchema l),
               social = socialPoints s\<rparr>
      in \<lparr>score = score_of b, grade = grade_of (score_of b), breakdown = b,
          metaFacts = m, headingFacts = h, imageFacts = i, contentFacts = c,
          technicalFacts = t, socialFacts = s, localFacts = l\<rparr>)"

text \<open>
  The page of the specification's worked example: a title of 55 characters, no meta
  description, one H1 of 25 characters, ten images that all have alt text, HTTPS, no
  robots.txt, no sitemap, no analytics, no structured data, no phone, no address, no
  social links, three words of body text and no H2.
\<close>

definition worked_example :: page where
  "worked_example =
     \<lparr>isSSL = True,
      html = ''<html><head><title>t</title></head><body>A short page</body></html>'',
      bodyRaw = ''A short page'',
      titleText = ''Handmade oak furniture and repairs in Springfield, Ohio'',
      descriptionAttr = [],
      viewportAttr = [],
      ogTags = 0,
      twitterCard = 0,
      h1Elements = ['' Welcome to our small shop ''],
      headingCounts = (0, 0, 0, 0, 0),
      imgElements = replicate 10 \<lparr>attr_src = Some ''a.png'', attr_alt = Some ''photo''\<rparr>,
      hrefAttrs = [],
      ogUrlAttr = [],
      robotsOk = False,
      sitemapOk = False,
      ldJsonScripts = [],
      microdataPresent = False,
      rdfaPresent = False,
      phonePatternMatches = [[], [], [], []],
      telLinkTexts = [],
      addressSources =
        \<lparr>usMatches = [], poBoxMatches = [], microdataTexts = [],
         selectorTexts = [[], [], [], [], [], [], [], []]\<rparr>\<rparr>"


section \<open>Properties of the scoring engine\<close>

lemma title_points_bounds: "0 \<le> title_points m \<and> title_points m \<le> 12"
  by (simp add: title_points_def)

lemma description_points_bounds: "0 \<le> description_points m \<and> description_points m \<le> 8"
  by (simp add: description_points_def)

lemma h1_points_bounds: "0 \<le> h1_points h \<and> h1_points h \<le> 8"
  by (simp add: h1_points_def split: list.split)

lemma hierarchy_points_bounds: "0 \<le> hierarchy_points h \<and> hierarchy_points h \<le> 5"
  by (simp add: hierarchy_points_def)

lemma alt_points_bounds: "0 \<le> alt_points i \<and> alt_points i \<le> 4"
  by (simp add: alt_points_def)

lemma content_points_bounds: "0 \<le> content_points c \<and> content_points c \<le> 8"
  by (simp add: content_points_def)

lemma onPagePoints_bounds: "0 \<le> onPagePoints m h i c \<and> onPagePoints m h i c \<le> 45"
  using title_points_bounds [of m] description_points_bounds [of m] h1_points_bounds [of h]
    hierarchy_points_bounds [of h] alt_points_bounds [of i] content_points_bounds [of c]
  unfolding onPagePoints_def by linarith

lemma technicalPoints_bounds: "0 \<le> technicalPoints t \<and> technicalPoints t \<le> 30"
  by (simp add: technicalPoints_def)

lemma localPoints_bounds: "0 \<le> localPoints a b c \<and> localPoints a b c \<le> 15"
  by (simp add: localPoints_def)

lemma socialPoints_bounds: "0 \<le> socialPoints s \<and> socialPoints s \<le> 10"
  by (simp add: socialPoints_def)

lemma breakdown_analyzeSEO:
  "breakdown (analyzeSEO p) =
     \<lparr>onPage = onPagePoints (metaFacts (analyzeSEO p)) (headingFacts (analyzeSEO p))
                 (imageFacts (analyzeSEO p)) (contentFacts (analyzeSEO p)),
      technical = technicalPoints (technicalFacts (analyzeSEO p)),
      local = localPoints (hasPhone (localFacts (analyzeSEO p)))
                (hasAddress (addressFacts (localFacts (analyzeSEO p))))
                (localBusinessSchema (localFacts (analyzeSEO p))),
      social = socialPoints (socialFacts (analyzeSEO p))\<rparr>"
  by (simp add: analyzeSEO_def Let_def)

lemma score_analyzeSEO: "score (analyzeSEO p) = score_of (breakdown (analyzeSEO p))"
  by (simp add: analyzeSEO_def Let_def)

lemma grade_analyzeSEO: "grade (analyzeSEO p) = grade_of (score (analyzeSEO p))"
  by (simp add: analyzeSEO_def Let_def)

text \<open>
  Claim C2. For every page the total score is exactly the sum of the four category
  points, with no clamping; every category is at least 0 and at most its maximum (45, 30,
  15 and 10), so the total lies between 0 and 100.
\<close>

theorem total_is_sum_of_bounded_categories:
  "score (analyzeSEO p) =
     onPage (breakdown (analyzeSEO p)) + technical (breakdown (analyzeSEO p)) +
     local (breakdown (analyzeSEO p)) + social (breakdown (analyzeSEO p)) \<and>
   0 \<le> onPage (breakdown (analyzeSEO p)) \<and> onPage (breakdown (analyzeSEO p)) \<le> 45 \<and>
   0 \<le> technical (breakdown (analyzeSEO p)) \<and> technical (breakdown (analyzeSEO p)) \<le> 30 \<and>
   0 \<le> local (breakdown (analyzeSEO p)) \<and> local (breakdown (analyzeSEO p)) \<le> 15 \<and>
   0 \<le> social (breakdown (analyzeSEO p)) \<and> social (breakdown (analyzeSEO p)) \<le> 10 \<and>
   0 \<le> score (analyzeSEO p) \<and> score (analyzeSEO p) \<le> 100"
proof -
  let ?b = "breakdown (analyzeSEO p)"
  have s: "score (analyzeSEO p) = onPage ?b + technical ?b + local ?b + social ?b"
    by (simp add: score_analyzeSEO score_of_def)
  have o: "0 \<le> onPage ?b \<and> onPage ?b \<le> 45"
    by (subst (1 2) breakdown_analyzeSEO) (simp add: onPagePoints_bounds)
  have t: "0 \<le> technical ?b \<and> technical ?b \<le> 30"
    by (subst (1 2) breakdown_analyzeSEO) (simp add: technicalPoints_bounds)
  have l: "0 \<le> local ?b \<and> local ?b \<le> 15"
    by (subst (1 2) breakdown_analyzeSEO) (simp add: localPoints_bounds)
  have c: "0 \<le> social ?b \<and> social ?b \<le> 10"
    by (subst (1 2) breakdown_analyzeSEO) (simp add: socialPoints_bounds)
  from s o t l c show ?thesis by linarith
qed

section \<open>Properties of the fact extractor\<close>

lemma each_image_withAlt:
  "imagesWithAlt (each_image is st) = imagesWithAlt st + length (filter has_alt is)"
  by (induction "is" arbitrary: st) (simp_all add: image_step_def Let_def)

lemma each_image_lists:
  "imagesList (each_image is st) = imagesList st @ map image_data is \<and>
   imagesWithAltList (each_image is st) =
     imagesWithAltList st @ map image_data (filter has_alt is) \<and>
   imagesWithoutAltList (each_image is st) =
     imagesWithoutAltList st @ map image_data (filter (\<lambda>i. \<not> has_alt i) is)"
  by (induction "is" arbitrary: st) (simp_all add: image_step_def Let_def)

lemma imageFacts_analyzeSEO: "imageFacts (analyzeSEO p) = mk_imagesData (imgElements p)"
  by (simp add: analyzeSEO_def Let_def)

lemma filter_split_length:
  "length (filter P xs) + length (filter (\<lambda>x. \<not> P x) xs) = length xs"
  by (induction xs) simp_all

text \<open>
  Claim C7. For every document the images record satisfies
  \<open>withAlt + withoutAlt = total\<close>, and \<open>withAlt\<close> counts exactly the images whose
  \<^verbatim>\<open>alt\<close> attribute exists and has non-empty trimmed text. The two lists of the record
  have the lengths \<open>withAlt\<close> and \<open>withoutAlt\<close>, so the difference that defines
  \<open>withoutAlt\<close> is the number of images pushed to the second list.
\<close>

theorem images_partition:
  "int (withAlt (imageFacts (analyzeSEO p))) + withoutAlt (imageFacts (analyzeSEO p)) =
     int (totalImages (imageFacts (analyzeSEO p))) \<and>
   withAlt (imageFacts (analyzeSEO p)) =
     length (filter (\<lambda>i. case attr_alt i of None \<Rightarrow> False | Some a \<Rightarrow> length (trim a) > 0)
       (imgElements p)) \<and>
   totalImages (imageFacts (analyzeSEO p)) = length (imgElements p) \<and>
   withoutAlt (imageFacts (analyzeSEO p)) =
     int (length (withoutAltList (imageFacts (analyzeSEO p)))) \<and>
   withAlt (imageFacts (analyzeSEO p)) = length (withAltList (imageFacts (analyzeSEO p)))"
proof -
  let ?is = "imgElements p"
  have f: "(\<lambda>i. case attr_alt i of None \<Rightarrow> False | Some a \<Rightarrow> length (trim a) > 0) = has_alt"
    by (rule ext) (simp add: has_alt_def)
  have le: "length (filter has_alt ?is) \<le> length ?is" by simp
  have sp: "length (filter has_alt ?is) + length (filter (\<lambda>x. \<not> has_alt x) ?is) = length ?is"
    by (rule filter_split_length)
  show ?thesis
    unfolding imageFacts_analyzeSEO f
    using sp by (simp add: mk_imagesData_def Let_def each_image_withAlt each_image_lists)
qed

lemma list_all_dropWhile: "list_all P (dropWhile P xs) = list_all P xs"
  by (induction xs) auto

lemma trim_empty_iff: "trim s = [] \<longleftrightarrow> list_all is_space s"
proof -
  have "trim s = [] \<longleftrightarrow> list_all is_space (dropWhile is_space s)"
    by (simp add: trim_def dropWhile_eq_Nil_conv list_all_iff)
  then show ?thesis by (simp add: list_all_dropWhile)
qed

lemma list_all_collapse_ws: "list_all is_space (collapse_ws s) = list_all is_space s"
proof (induction s rule: collapse_ws.induct)
  case 1
  show ?case by simp
next
  case (2 c cs)
  have sp: "is_space (CHR '' '')" by (simp add: is_space_def)
  show ?case
  proof (cases "is_space c")
    case True
    with 2 sp show ?thesis by (simp add: list_all_dropWhile)
  next
    case False
    with 2 show ?thesis by simp
  qed
qed

lemma bodyText_empty_iff: "bodyText_of body = [] \<longleftrightarrow> list_all is_space body"
  by (simp add: bodyText_of_def trim_empty_iff list_all_collapse_ws)

text \<open>
  Claim C8. When the body text is empty after collapsing white space and trimming, the
  word count is 1: the split of the empty string has one piece, the empty string.
  By \<open>bodyText_empty_iff\<close> these are the bodies made of white space only.
\<close>

theorem empty_body_counts_one_word:
  "bodyText_of body = [] \<Longrightarrow>
     split_ws (bodyText_of body) = [[]] \<and> wordCount (mk_content body) = 1"
  by (simp add: mk_content_def split_ws_def)

theorem empty_body_counts_one_word_witness:
  "bodyText_of [CHR '' '', CHR 0x0A, CHR '' ''] = [] \<and>
   wordCount (mk_content [CHR '' '', CHR 0x0A, CHR '' '']) = 1"
proof -
  have h: "bodyText_of [CHR '' '', CHR 0x0A, CHR '' ''] = []"
    by (simp add: bodyText_of_def trim_def is_space_def)
  show ?thesis using h empty_body_counts_one_word [OF h] by simp
qed

text \<open>
  The double arithmetic of the percentages: the exponent chosen by \<open>scale_exp\<close> puts
  the quotient between \<open>2 ^ 52\<close> and \<open>2 ^ 53\<close>, so \<open>fl\<close> is within a relative error
  of \<open>2 ^ - 53\<close> of the quotient, and \<open>js_round\<close> is \<open>\<lfloor>x + 1/2\<rfloor>\<close>.
\<close>

lemma bitlen_bounds:
  "0 < n \<Longrightarrow> 2 ^ (bitlen n - 1) \<le> n \<and> n < 2 ^ bitlen n"
proof (induction n rule: bitlen.induct)
  case (1 n)
  show ?case
  proof (cases "n div 2 = 0")
    case True
    with 1(2) have "n = 1" by presburger
    then show ?thesis by (simp add: bitlen.simps)
  next
    case False
    then have p: "0 < n div 2" by simp
    from 1(1) [OF _ p] 1(2)
    have ih: "2 ^ (bitlen (n div 2) - 1) \<le> n div 2" "n div 2 < 2 ^ bitlen (n div 2)" by auto
    have b: "bitlen n = Suc (bitlen (n div 2))" using 1(2) by (subst bitlen.simps) simp
    have pos: "0 < bitlen (n div 2)" using p by (subst bitlen.simps) simp
    then obtain j where j: "bitlen (n div 2) = Suc j" by (cases "bitlen (n div 2)") auto
    from ih j have "2 * 2 ^ j \<le> 2 * (n div 2)" by simp
    also have "\<dots> \<le> n" by simp
    finally have lo: "2 ^ (bitlen n - 1) \<le> n" by (simp add: b j)
    from ih(2) have "n div 2 + 1 \<le> 2 ^ bitlen (n div 2)" by simp
    then have "2 * (n div 2) + 2 \<le> 2 * 2 ^ bitlen (n div 2)" by simp
    moreover have "n < 2 * (n div 2) + 2" by presburger
    ultimately have "n < 2 ^ bitlen n" by (simp add: b)
    with lo show ?thesis by simp
  qed
qed

lemma div_rne_nat:
  assumes "0 < d"
  shows "2 * n \<le> 2 * (div_rne n d * d) + d \<and> 2 * (div_rne n d * d) \<le> 2 * n + d"
proof -
  define q where "q = n div d"
  define r where "r = n mod d"
  have n: "n = q * d + r" by (simp add: q_def r_def)
  have r: "r < d" using assms by (simp add: r_def)
  have dr: "div_rne n d =
      (if 2 * r < d then q else if d < 2 * r then q + 1 else if even q then q else q + 1)"
    by (simp add: div_rne_def Let_def q_def r_def)
  have "2 * (q * d + r) \<le> 2 * (div_rne n d * d) + d \<and>
        2 * (div_rne n d * d) \<le> 2 * (q * d + r) + d"
    unfolding dr using r by (auto simp: algebra_simps)
  then show ?thesis using n by simp
qed

lemma div_rne_real:
  assumes "0 < d"
  shows "\<bar>real (div_rne n d) - real n / real d\<bar> \<le> 1 / 2"
proof -
  from div_rne_nat [OF assms, of n]
  have "2 * real n \<le> 2 * (real (div_rne n d) * real d) + real d"
       "2 * (real (div_rne n d) * real d) \<le> 2 * real n + real d"
    by (metis of_nat_add of_nat_le_iff of_nat_mult of_nat_numeral)+
  then have a: "\<bar>real (div_rne n d) * real d - real n\<bar> \<le> real d / 2" by linarith
  have "real (div_rne n d) - real n / real d =
        (real (div_rne n d) * real d - real n) / real d"
    using assms by (simp add: field_simps)
  then have "\<bar>real (div_rne n d) - real n / real d\<bar> =
             \<bar>real (div_rne n d) * real d - real n\<bar> / real d"
    using assms by (simp add: abs_divide)
  also have "\<dots> \<le> (real d / 2) / real d"
    using a assms by (simp add: divide_right_mono)
  also have "\<dots> = 1 / 2" using assms by simp
  finally show ?thesis .
qed


lemma scale_exp_bounds:
  assumes "0 < n" "0 < d"
  shows "2 ^ 52 * 2 powi (scale_exp n d) \<le> real n / real d \<and>
         real n / real d < 2 ^ 53 * 2 powi (scale_exp n d)"
proof -
  define k where "k = int (bitlen n) - int (bitlen d)"
  define x where "x = real n / real d"
  have dpos: "0 < real d" using assms by simp
  from bitlen_bounds [OF assms(1)] have n1: "2 ^ (bitlen n - 1) \<le> n" and n2: "n < 2 ^ bitlen n"
    by simp_all
  from bitlen_bounds [OF assms(2)] have d1: "2 ^ (bitlen d - 1) \<le> d" and d2: "d < 2 ^ bitlen d"
    by simp_all
  have bn: "0 < bitlen n" using assms(1) by (subst bitlen.simps) simp
  have bd: "0 < bitlen d" using assms(2) by (subst bitlen.simps) simp
  have rn1: "(2::real) powi (int (bitlen n) - 1) \<le> real n"
  proof -
    have "(2::real) powi (int (bitlen n) - 1) = 2 ^ (bitlen n - 1)"
      using bn by (simp add: power_int_def nat_diff_distrib')
    also have "\<dots> \<le> real n" using n1 by (metis of_nat_le_iff of_nat_numeral of_nat_power)
    finally show ?thesis .
  qed
  have rn2: "real n < 2 powi (int (bitlen n))"
    using n2 by (metis of_nat_less_iff of_nat_numeral of_nat_power power_int_of_nat)
  have rd1: "(2::real) powi (int (bitlen d) - 1) \<le> real d"
  proof -
    have "(2::real) powi (int (bitlen d) - 1) = 2 ^ (bitlen d - 1)"
      using bd by (simp add: power_int_def nat_diff_distrib')
    also have "\<dots> \<le> real d" using d1 by (metis of_nat_le_iff of_nat_numeral of_nat_power)
    finally show ?thesis .
  qed
  have rd2: "real d < 2 powi (int (bitlen d))"
    using d2 by (metis of_nat_less_iff of_nat_numeral of_nat_power power_int_of_nat)
  have up: "x < 2 powi (k + 1)"
  proof -
    have "real n < 2 powi (k + 1) * 2 powi (int (bitlen d) - 1)"
      using rn2 by (simp add: k_def power_int_add [symmetric])
    also have "\<dots> \<le> 2 powi (k + 1) * real d"
      using rd1 by (simp add: mult_left_mono)
    finally show ?thesis using dpos by (simp add: x_def field_simps)
  qed
  have lo: "2 powi (k - 1) < x"
  proof -
    have "2 powi (k - 1) * real d < 2 powi (k - 1) * 2 powi (int (bitlen d))"
      using rd2 by (simp add: mult_strict_left_mono)
    also have "\<dots> = 2 powi (int (bitlen n) - 1)"
    proof -
      have "(2::real) powi (k - 1) * 2 powi (int (bitlen d)) = 2 powi ((k - 1) + int (bitlen d))"
        by (subst power_int_add) simp_all
      moreover have "(k - 1) + int (bitlen d) = int (bitlen n) - 1"
        by (simp add: k_def)
      ultimately show ?thesis by (simp only:)
    qed
    also have "\<dots> \<le> real n" by (rule rn1)
    finally show ?thesis using dpos by (simp add: x_def field_simps)
  qed
  have test: "(if 0 \<le> k then d * 2 ^ nat k \<le> n else d \<le> n * 2 ^ nat (- k)) \<longleftrightarrow> 2 powi k \<le> x"
  proof (cases "0 \<le> k")
    case True
    have "d * 2 ^ nat k \<le> n \<longleftrightarrow> real d * 2 ^ nat k \<le> real n"
      by (metis of_nat_le_iff of_nat_mult of_nat_numeral of_nat_power)
    also have "\<dots> \<longleftrightarrow> 2 powi k \<le> x"
      using True dpos by (simp add: x_def power_int_def field_simps)
    finally show ?thesis using True by simp
  next
    case False
    have "d \<le> n * 2 ^ nat (- k) \<longleftrightarrow> real d \<le> real n * 2 ^ nat (- k)"
      by (metis of_nat_le_iff of_nat_mult of_nat_numeral of_nat_power)
    also have "\<dots> \<longleftrightarrow> 2 powi k \<le> x"
      using False dpos by (simp add: x_def power_int_def field_simps)
    finally show ?thesis using False by simp
  qed
  define lg where "lg = (if 2 powi k \<le> x then k else k - 1)"
  have e: "scale_exp n d = lg - 52"
    unfolding scale_exp_def Let_def lg_def k_def [symmetric] using test by simp
  have lg1: "2 powi lg \<le> x" using lo by (simp add: lg_def)
  have lg2: "x < 2 powi (lg + 1)" using up by (auto simp: lg_def)
  have p52: "(2::real) ^ 52 * 2 powi (lg - 52) = 2 powi lg"
  proof -
    have "lg = 52 + (lg - 52)" by simp
    then have "(2::real) powi lg = 2 powi (52 + (lg - 52))" by (simp only:)
    also have "\<dots> = 2 powi 52 * 2 powi (lg - 52)" by (subst power_int_add) simp_all
    finally show ?thesis by simp
  qed
  have p53: "(2::real) ^ 53 * 2 powi (lg - 52) = 2 powi (lg + 1)"
  proof -
    have "lg + 1 = 53 + (lg - 52)" by simp
    then have "(2::real) powi (lg + 1) = 2 powi (53 + (lg - 52))" by (simp only:)
    also have "\<dots> = 2 powi 53 * 2 powi (lg - 52)" by (subst power_int_add) simp_all
    finally show ?thesis by simp
  qed
  from lg1 lg2 show ?thesis unfolding e p52 p53 x_def by simp
qed


lemma fl_error:
  assumes "0 < n" "0 < d"
  shows "\<bar>double_value (fl n d) - real n / real d\<bar> \<le> (real n / real d) / 2 ^ 53"
proof -
  define e where "e = scale_exp n d"
  define x where "x = real n / real d"
  define m where "m = fst (fl n d)"
  have dpos: "0 < real d" using assms by simp
  have ppos: "0 < (2::real) powi e" by simp
  from scale_exp_bounds [OF assms] have lo: "2 ^ 52 * 2 powi e \<le> x"
    by (simp add: e_def x_def)
  have v: "double_value (fl n d) = real m * 2 powi e"
    by (simp add: double_value_def fl_def Let_def m_def e_def)
  have half: "\<bar>real m - x / 2 powi e\<bar> \<le> 1 / 2"
  proof (cases "0 \<le> e")
    case True
    have m: "m = div_rne n (d * 2 ^ nat e)"
      using True by (simp add: m_def fl_def Let_def e_def)
    have "x / 2 powi e = real n / real (d * 2 ^ nat e)"
      using True by (simp add: x_def power_int_def)
    moreover have "0 < d * 2 ^ nat e" using assms by simp
    ultimately show ?thesis unfolding m using div_rne_real [of "d * 2 ^ nat e" n] by simp
  next
    case False
    have m: "m = div_rne (n * 2 ^ nat (- e)) d"
      using False by (simp add: m_def fl_def Let_def e_def)
    have "x / 2 powi e = real (n * 2 ^ nat (- e)) / real d"
      using False by (simp add: x_def power_int_def field_simps)
    then show ?thesis unfolding m using div_rne_real [OF assms(2), of "n * 2 ^ nat (- e)"] by simp
  qed
  have "\<bar>real m * 2 powi e - x\<bar> = \<bar>real m - x / 2 powi e\<bar> * 2 powi e"
  proof -
    have "real m * 2 powi e - x = (real m - x / 2 powi e) * 2 powi e"
      by (simp add: field_simps)
    then show ?thesis by (simp add: abs_mult)
  qed
  also have "\<dots> \<le> 1 / 2 * 2 powi e"
    using half by (simp add: mult_right_mono)
  also have "\<dots> \<le> x / 2 ^ 53"
    using lo by simp
  finally show ?thesis unfolding v x_def .
qed

lemma fl_positive:
  assumes "0 < n" "0 < d"
  shows "0 < fst (fl n d)"
proof (rule ccontr)
  assume "\<not> 0 < fst (fl n d)"
  then have "double_value (fl n d) = 0" by (simp add: double_value_def)
  with fl_error [OF assms] have "real n / real d \<le> (real n / real d) / 2 ^ 53" by simp
  moreover have "0 < real n / real d" using assms by simp
  ultimately show False by (simp add: field_simps)
qed

lemma js_round_floor: "int (js_round x) = \<lfloor>double_value x + 1 / 2\<rfloor>"
proof (cases x)
  case (Pair m e)
  show ?thesis
  proof (cases "0 \<le> e")
    case True
    have "double_value (m, e) = real_of_int (int (m * 2 ^ nat e))"
      using True by (simp add: double_value_def power_int_def)
    then have "\<lfloor>double_value (m, e) + 1 / 2\<rfloor> = int (m * 2 ^ nat e)"
      by (simp only:) linarith
    with True Pair show ?thesis by (simp add: js_round_def)
  next
    case False
    define k where "k = nat (- e)"
    have "double_value (m, e) + 1 / 2 =
            real_of_int (int (2 * m + 2 ^ k)) / real_of_int (int (2 * 2 ^ k))"
      using False by (simp add: double_value_def power_int_def k_def field_simps)
    then have "\<lfloor>double_value (m, e) + 1 / 2\<rfloor> = int (2 * m + 2 ^ k) div int (2 * 2 ^ k)"
      by (simp only: floor_divide_of_int_eq)
    also have "\<dots> = int ((2 * m + 2 ^ k) div (2 * 2 ^ k))"
      by (simp only: zdiv_int)
    finally show ?thesis using False Pair by (simp add: js_round_def k_def)
  qed
qed


lemma js_times100_error:
  "\<bar>double_value (js_times100 x) - 100 * double_value x\<bar> \<le> 100 * double_value x / 2 ^ 53"
proof (cases x)
  case (Pair m e)
  show ?thesis
  proof (cases "m = 0")
    case True
    with Pair show ?thesis by (simp add: js_times100_def double_value_def)
  next
    case False
    obtain m' e' where f: "fl (m * 100) 1 = (m', e')" by (cases "fl (m * 100) 1")
    have v: "double_value (js_times100 x) = double_value (m', e') * 2 powi e"
      using False Pair f by (simp add: js_times100_def double_value_def power_int_add)
    from fl_error [of "m * 100" 1] False f
    have err: "\<bar>double_value (m', e') - 100 * real m\<bar> \<le> 100 * real m / 2 ^ 53"
      by (simp add: mult.commute)
    have dx: "double_value x = real m * 2 powi e"
      using Pair by (simp add: double_value_def)
    have "double_value (js_times100 x) - 100 * double_value x =
          (double_value (m', e') - 100 * real m) * 2 powi e"
      unfolding v dx by (simp add: algebra_simps)
    then have "\<bar>double_value (js_times100 x) - 100 * double_value x\<bar> =
          \<bar>double_value (m', e') - 100 * real m\<bar> * 2 powi e"
      by (simp add: abs_mult)
    also have "\<dots> \<le> (100 * real m / 2 ^ 53) * 2 powi e"
      using err by (simp add: mult_right_mono)
    also have "\<dots> = 100 * double_value x / 2 ^ 53"
      unfolding dx by simp
    finally show ?thesis .
  qed
qed

lemma js_percent_accuracy:
  assumes "0 < b"
  shows "\<exists>r. js_percent a b = Some r \<and>
             \<bar>real r - 100 * real a / real b\<bar> \<le> 1 / 2 + (100 * real a / real b) / 2 ^ 51"
proof (cases "a = 0")
  case True
  with assms show ?thesis
    by (simp add: js_percent_def js_div_def js_times100_def js_round_def)
next
  case False
  define v where "v = 100 * real a / real b"
  define y1 where "y1 = double_value (fl a b)"
  define y2 where "y2 = double_value (js_times100 (fl a b))"
  define r where "r = js_round (js_times100 (fl a b))"
  have p: "js_percent a b = Some r"
    using assms False by (simp add: js_percent_def js_div_def r_def)
  have vpos: "0 \<le> v" by (simp add: v_def)
  from fl_error [of a b] assms False
  have e1: "\<bar>y1 - real a / real b\<bar> \<le> (real a / real b) / 2 ^ 53" by (simp add: y1_def)
  then have e1': "\<bar>100 * y1 - v\<bar> \<le> v / 2 ^ 53" by (simp add: v_def)
  from js_times100_error [of "fl a b"]
  have e2: "\<bar>y2 - 100 * y1\<bar> \<le> 100 * y1 / 2 ^ 53" by (simp add: y1_def y2_def)
  from e1' have "100 * y1 \<le> v + v / 2 ^ 53" by linarith
  then have "100 * y1 / 2 ^ 53 \<le> (v + v / 2 ^ 53) / 2 ^ 53"
    by (simp add: divide_right_mono)
  also have "\<dots> \<le> 2 * v / 2 ^ 53" using vpos by simp
  finally have e2': "\<bar>y2 - 100 * y1\<bar> \<le> 2 * v / 2 ^ 53" using e2 by linarith
  from e1' e2' have "\<bar>y2 - v\<bar> \<le> 3 * v / 2 ^ 53" by linarith
  also have "\<dots> \<le> v / 2 ^ 51" using vpos by simp
  finally have y: "\<bar>y2 - v\<bar> \<le> v / 2 ^ 51" .
  have "real_of_int (int r) = real_of_int \<lfloor>y2 + 1 / 2\<rfloor>"
    by (simp only: r_def y2_def js_round_floor)
  then have "real r = real_of_int \<lfloor>y2 + 1 / 2\<rfloor>"
    by (simp only: of_int_of_nat_eq)
  moreover have "real_of_int \<lfloor>y2 + 1 / 2\<rfloor> \<le> y2 + 1 / 2"
    by (rule of_int_floor_le)
  moreover have "y2 + 1 / 2 < real_of_int \<lfloor>y2 + 1 / 2\<rfloor> + 1"
    by (rule real_of_int_floor_add_one_gt)
  ultimately have "\<bar>real r - y2\<bar> \<le> 1 / 2" by linarith
  with y have "\<bar>real r - v\<bar> \<le> 1 / 2 + v / 2 ^ 51" by linarith
  with p show ?thesis by (simp add: v_def)
qed

text \<open>
  Claim C9. The rendering ratio is 0 when the raw document has length 0, where no division
  takes place. For every other length it is a finite number, never the \<^verbatim>\<open>NaN\<close> or
  \<^verbatim>\<open>Infinity\<close> of a division by zero, and it is the text length divided by the document
  length, times 100, rounded to an integer: it lies within one half of the exact
  percentage, up to the relative error \<open>2 ^ - 51\<close> of the two double operations.
\<close>

theorem rendering_ratio_guarded:
  "renderingPercentage textSize 0 = Some 0 \<and>
   (\<exists>r. renderingPercentage textSize htmlSize = Some r \<and>
        (if htmlSize = 0 then r = 0
         else \<bar>real r - 100 * real textSize / real htmlSize\<bar>
                \<le> 1 / 2 + (100 * real textSize / real htmlSize) / 2 ^ 51))"
proof (cases "htmlSize = 0")
  case True
  then show ?thesis by (simp add: renderingPercentage_def)
next
  case False
  then have "0 < htmlSize" by simp
  from js_percent_accuracy [OF this, of textSize] False show ?thesis
    by (simp add: renderingPercentage_def)
qed

text \<open>
  The rounding is that of the product computed in doubles. For 29 characters of text in
  200 of markup the product is 14.499999999999998 and the ratio is 14.
\<close>

lemma rendering_of_a_tie: "renderingPercentage 29 200 = Some 14"
  by (simp add: renderingPercentage_def js_percent_def js_div_def fl_def scale_exp_def
      div_rne_def js_times100_def js_round_def bitlen.simps Let_def)


section \<open>Properties of the entity detector\<close>

lemma each_tel_eq:
  "each_tel ts pm =
     rev (map (\<lambda>t. (''tel:link'', trim t))
            (filter (\<lambda>t. trim t \<noteq> [] \<and> has_digit (trim t)) ts)) @ pm"
  by (induction ts arbitrary: pm) (simp_all add: tel_step_def Let_def)

text \<open>
  Claim C10. When at least one \<^verbatim>\<open>tel:\<close> link has a display text with a digit, in
  particular when two or more have, the phone reported is the trimmed display text of
  the last such link in document order, whatever the patterns matched in the body text:
  each such link is put in front of all the matches collected before it.
\<close>

theorem last_tel_link_wins:
  assumes "filter (\<lambda>t. trim t \<noteq> [] \<and> has_digit (trim t)) telLinks \<noteq> []"
  shows "validPhone patternMatches telLinks =
           Some (trim (last (filter (\<lambda>t. trim t \<noteq> [] \<and> has_digit (trim t)) telLinks))) \<and>
         fst (hd (each_tel telLinks (body_phoneMatches patternMatches))) = ''tel:link''"
proof -
  let ?q = "filter (\<lambda>t. trim t \<noteq> [] \<and> has_digit (trim t)) telLinks"
  from assms obtain ys y where sn: "?q = ys @ [y]" by (metis rev_exhaust)
  have "each_tel telLinks (body_phoneMatches patternMatches) =
          (''tel:link'', trim y) # rev (map (\<lambda>t. (''tel:link'', trim t)) ys) @
            body_phoneMatches patternMatches"
    by (simp add: each_tel_eq sn)
  then show ?thesis by (simp add: validPhone_def sn)
qed

theorem last_tel_link_wins_witness:
  "filter (\<lambda>t. trim t \<noteq> [] \<and> has_digit (trim t))
     ['' 555-1111 '', ''call us'', ''555-2222''] \<noteq> [] \<and>
   validPhone [[''555-0000'']] ['' 555-1111 '', ''call us'', ''555-2222''] = Some ''555-2222''"
proof -
  have h: "filter (\<lambda>t. trim t \<noteq> [] \<and> has_digit (trim t))
             ['' 555-1111 '', ''call us'', ''555-2222''] = ['' 555-1111 '', ''555-2222'']"
    by (simp add: trim_def is_space_def has_digit_def is_digit_def)
  have t: "trim ''555-2222'' = ''555-2222''"
    by (simp add: trim_def is_space_def)
  have ne: "filter (\<lambda>t. trim t \<noteq> [] \<and> has_digit (trim t))
             ['' 555-1111 '', ''call us'', ''555-2222''] \<noteq> []"
    unfolding h by simp
  show ?thesis
    using ne last_tel_link_wins [OF ne, of "[[''555-0000'']]"] unfolding h by (simp add: t)
qed

section \<open>Properties of the structured data extractor\<close>

text \<open>The walk pushes exactly the types of \<open>encountered\<close>, until one of them throws.\<close>

lemma add_types_append:
  "add_types (xs @ ys) st =
     (case add_types xs st of
        (Returned, st') \<Rightarrow> add_types ys st'
      | (Thrown e, st') \<Rightarrow> (Thrown e, st'))"
  by (induction xs arbitrary: st) (auto split: prod.splits outcome.splits)

lemma walk_is_add_types:
  "extractSchemaTypes schema st = add_types (encountered schema) st"
  "each_graph_item members st = add_types (concat (map encountered members)) st"
  "each_value vs st =
     add_types
       (concat (map (\<lambda>v. if truthy v \<and> typeof_object v \<and> \<not> is_array v
                          then encountered v
                          else (case v of
                                  JArr items \<Rightarrow>
                                    concat (map (\<lambda>item. if truthy item \<and> typeof_object item
                                                        then encountered item else [])
                                              items)
                                | _ \<Rightarrow> []))
                 vs)) st"
  "each_item items st =
     add_types
       (concat (map (\<lambda>item. if truthy item \<and> typeof_object item
                             then encountered item else []) items)) st"
proof (induction schema st and members st and vs st and items st
    rule: extractSchemaTypes_each_graph_item_each_value_each_item.induct)
  case (1 schema st)
  show ?case
  proof (cases "truthy schema")
    case False
    then show ?thesis by (simp add: encountered.simps [of schema] extractSchemaTypes.simps [of schema])
  next
    case True
    show ?thesis
    proof (cases "graph_items schema")
      case (Some members)
      have "each_graph_item members st = add_types (concat (map encountered members)) st"
        using 1 True Some by blast
      with True Some show ?thesis by (simp add: encountered.simps [of schema] extractSchemaTypes.simps [of schema])
    next
      case None
      show ?thesis
      proof (cases "add_types (type_list schema) st")
        case (Pair r st')
        show ?thesis
        proof (cases r)
          case Returned
          have "each_value (object_values schema) st' =
                  add_types
                    (concat (map (\<lambda>v. if truthy v \<and> typeof_object v \<and> \<not> is_array v
                          then encountered v
                          else (case v of
                                  JArr items \<Rightarrow>
                                    concat (map (\<lambda>item. if truthy item \<and> typeof_object item
                                                        then encountered item else [])
                                              items)
                                | _ \<Rightarrow> []))
                       (object_values schema))) st'"
            using 1(1) [of r st'] True None Pair Returned by simp
          with True None Pair Returned show ?thesis
            by (simp add: encountered.simps [of schema] extractSchemaTypes.simps [of schema] add_types_append)
        next
          case (Thrown e)
          with True None Pair show ?thesis
            by (simp add: encountered.simps [of schema] extractSchemaTypes.simps [of schema] add_types_append)
        qed
      qed
    qed
  qed
next
  case (2 st)
  show ?case by simp
next
  case (3 item items st)
  then show ?case
    by (auto simp: add_types_append split: prod.splits outcome.splits)
next
  case (4 st)
  show ?case by simp
next
  case (5 v vs st)
  then show ?case
    by (auto simp: add_types_append split: prod.splits outcome.splits json.splits)
next
  case (6 st)
  show ?case by simp
next
  case (7 item items st)
  then show ?case
    by (auto simp: add_types_append split: prod.splits outcome.splits)
qed

lemma remdups_snoc: "remdups (ys @ [x]) = filter (\<lambda>y. y \<noteq> x) (remdups ys) @ [x]"
  by (induction ys) auto

lemma first_seen_Cons: "first_seen (x # xs) = x # filter (\<lambda>y. y \<noteq> x) (first_seen xs)"
  by (simp add: first_seen_def remdups_snoc rev_filter)

lemma set_first_seen: "set (first_seen xs) = set xs"
  by (simp add: first_seen_def)

lemma distinct_first_seen: "distinct (first_seen xs)"
  by (simp add: first_seen_def)

lemma add_type_string:
  assumes "is_string t \<or> \<not> truthy t"
  shows "fst (add_type t st) = Returned"
    and "schemaTypes (snd (add_type t st)) =
           (if truthy t \<and> t \<notin> set (schemaTypes st) then schemaTypes st @ [t] else schemaTypes st)"
  using assms by (cases t; simp add: add_type_def Let_def)+

lemma push_new_first_seen:
  "fold (\<lambda>t S. if truthy t \<and> t \<notin> set S then S @ [t] else S) ts S =
     S @ filter (\<lambda>t. t \<notin> set S) (first_seen (filter truthy ts))"
proof (induction ts arbitrary: S)
  case Nil
  show ?case by (simp add: first_seen_def)
next
  case (Cons t ts)
  let ?F = "first_seen (filter truthy ts)"
  show ?case
  proof (cases "truthy t")
    case False
    with Cons.IH [of S] show ?thesis by simp
  next
    case True
    show ?thesis
    proof (cases "t \<in> set S")
      case inS: True
      have a: "filter (\<lambda>x. x \<notin> set S) (filter (\<lambda>y. y \<noteq> t) zs) =
               filter (\<lambda>x. x \<notin> set S) zs" for zs
        using inS by (induction zs) auto
      have "filter (\<lambda>x. x \<notin> set S) (first_seen (filter truthy (t # ts))) =
            filter (\<lambda>x. x \<notin> set S) (t # filter (\<lambda>y. y \<noteq> t) ?F)"
        using True by (simp only: filter.simps first_seen_Cons if_True)
      also have "\<dots> = filter (\<lambda>x. x \<notin> set S) (filter (\<lambda>y. y \<noteq> t) ?F)"
        using inS by (simp del: filter_filter)
      also have "\<dots> = filter (\<lambda>x. x \<notin> set S) ?F"
        by (rule a)
      finally have r: "filter (\<lambda>x. x \<notin> set S) (first_seen (filter truthy (t # ts))) =
            filter (\<lambda>x. x \<notin> set S) ?F" .
      have "fold (\<lambda>t S. if truthy t \<and> t \<notin> set S then S @ [t] else S) (t # ts) S =
            fold (\<lambda>t S. if truthy t \<and> t \<notin> set S then S @ [t] else S) ts S"
        using inS by simp
      with Cons.IH [of S] r show ?thesis by (simp only:)
    next
      case notS: False
      have e: "filter (\<lambda>x. x \<notin> set (S @ [t])) zs =
               filter (\<lambda>x. x \<notin> set S) (filter (\<lambda>y. y \<noteq> t) zs)" for zs
        by (induction zs) auto
      have "filter (\<lambda>x. x \<notin> set S) (first_seen (filter truthy (t # ts))) =
            filter (\<lambda>x. x \<notin> set S) (t # filter (\<lambda>y. y \<noteq> t) ?F)"
        using True by (simp only: filter.simps first_seen_Cons if_True)
      also have "\<dots> = t # filter (\<lambda>x. x \<notin> set S) (filter (\<lambda>y. y \<noteq> t) ?F)"
        using notS by (simp del: filter_filter)
      also have "\<dots> = t # filter (\<lambda>x. x \<notin> set (S @ [t])) ?F"
        by (simp only: e)
      finally have r: "S @ filter (\<lambda>x. x \<notin> set S) (first_seen (filter truthy (t # ts))) =
            (S @ [t]) @ filter (\<lambda>x. x \<notin> set (S @ [t])) ?F"
        by (simp only: append_assoc append_Cons append_Nil)
      have "fold (\<lambda>t S. if truthy t \<and> t \<notin> set S then S @ [t] else S) (t # ts) S =
            fold (\<lambda>t S. if truthy t \<and> t \<notin> set S then S @ [t] else S) ts (S @ [t])"
        using True notS by simp
      with Cons.IH [of "S @ [t]"] r show ?thesis by (simp only:)
    qed
  qed
qed

lemma add_types_string_fold:
  assumes "string_typed ts"
  shows "fst (add_types ts st) = Returned \<and>
         schemaTypes (snd (add_types ts st)) =
           fold (\<lambda>t S. if truthy t \<and> t \<notin> set S then S @ [t] else S) ts (schemaTypes st)"
  using assms
proof (induction ts arbitrary: st)
  case Nil
  show ?case by simp
next
  case (Cons t ts)
  from Cons.prems have t: "is_string t \<or> \<not> truthy t" and ts: "string_typed ts"
    by (simp_all add: string_typed_def)
  obtain r st' where a: "add_type t st = (r, st')" by (cases "add_type t st")
  from add_type_string [OF t, of st] a have r: "r = Returned"
    and s: "schemaTypes st' =
      (if truthy t \<and> t \<notin> set (schemaTypes st) then schemaTypes st @ [t] else schemaTypes st)"
    by simp_all
  have step: "add_types (t # ts) st = add_types ts st'"
    using a r by simp
  from Cons.IH [OF ts, of st'] show ?case
    unfolding step s by simp
qed

lemma add_types_string:
  assumes "string_typed ts"
  shows "fst (add_types ts st) = Returned \<and>
         schemaTypes (snd (add_types ts st)) =
           schemaTypes st @
           filter (\<lambda>t. t \<notin> set (schemaTypes st)) (first_seen (filter truthy ts))"
  using add_types_string_fold [OF assms, of st] by (simp only: push_new_first_seen)

lemma is_identity_string: "is_identity t \<Longrightarrow> is_string t"
  by (auto simp: is_identity_def)

lemma add_type_skip:
  "\<not> (truthy t \<and> \<not> array_includes (schemaTypes st) t) \<Longrightarrow> add_type t st = (Returned, st)"
  by (auto simp: add_type_def)

lemma add_type_push:
  assumes "truthy t" "\<not> array_includes (schemaTypes st) t"
  shows "\<exists>b. snd (add_type t st) =
           st\<lparr>schemaTypes := schemaTypes st @ [t],
              hasIdentitySchema := hasIdentitySchema st \<or> is_identity t,
              identityType := (if is_identity t then t else identityType st),
              hasLocalBusinessSchema := hasLocalBusinessSchema st \<or> b\<rparr>"
proof (cases "local_business_test t")
  case (Inl e)
  with assms have "snd (add_type t st) =
           st\<lparr>schemaTypes := schemaTypes st @ [t],
              hasIdentitySchema := hasIdentitySchema st \<or> is_identity t,
              identityType := (if is_identity t then t else identityType st),
              hasLocalBusinessSchema := hasLocalBusinessSchema st \<or> False\<rparr>"
    by (simp add: add_type_def Let_def)
  then show ?thesis by blast
next
  case (Inr b)
  with assms have "snd (add_type t st) =
           st\<lparr>schemaTypes := schemaTypes st @ [t],
              hasIdentitySchema := hasIdentitySchema st \<or> is_identity t,
              identityType := (if is_identity t then t else identityType st),
              hasLocalBusinessSchema := hasLocalBusinessSchema st \<or> b\<rparr>"
    by (simp add: add_type_def Let_def)
  then show ?thesis by blast
qed

lemma add_type_identity_inv:
  assumes "identity_inv st"
  shows "identity_inv (snd (add_type t st))"
proof (cases "truthy t \<and> \<not> array_includes (schemaTypes st) t")
  case False
  with assms show ?thesis by (simp add: add_type_skip)
next
  case True
  then obtain b where st': "snd (add_type t st) =
           st\<lparr>schemaTypes := schemaTypes st @ [t],
              hasIdentitySchema := hasIdentitySchema st \<or> is_identity t,
              identityType := (if is_identity t then t else identityType st),
              hasLocalBusinessSchema := hasLocalBusinessSchema st \<or> b\<rparr>"
    using add_type_push [of t st] by blast
  show ?thesis
  proof (cases "is_identity t")
    case id: True
    then obtain s where t: "t = JStr s" by (cases t) (auto simp: is_identity_def)
    with True have "t \<notin> set (schemaTypes st)" by simp
    with assms id show ?thesis
      unfolding st' by (simp add: identity_inv_def)
  next
    case False
    with assms show ?thesis
      unfolding st' by (simp add: identity_inv_def)
  qed
qed

lemma add_types_identity_inv:
  "identity_inv st \<Longrightarrow> identity_inv (snd (add_types ts st))"
proof (induction ts arbitrary: st)
  case Nil
  then show ?case by simp
next
  case (Cons t ts)
  obtain r st' where a: "add_type t st = (r, st')" by (cases "add_type t st")
  with add_type_identity_inv [OF Cons.prems, of t] have i: "identity_inv st'" by simp
  show ?case
  proof (cases r)
    case Returned
    with a Cons.IH [OF i] show ?thesis by simp
  next
    case (Thrown e)
    with a i show ?thesis by simp
  qed
qed

lemma script_body_identity_inv:
  "identity_inv st \<Longrightarrow> identity_inv (snd (script_body s st))"
  by (cases s) (simp_all add: walk_is_add_types add_types_identity_inv)

lemma each_script_identity_inv:
  "identity_inv st \<Longrightarrow> identity_inv (snd (each_script scripts st))"
proof (induction scripts arbitrary: st)
  case Nil
  then show ?case by simp
next
  case (Cons s ss)
  obtain r st' where b: "script_body s st = (r, st')" by (cases "script_body s st")
  with script_body_identity_inv [OF Cons.prems, of s] have i: "identity_inv st'" by simp
  have "each_script (s # ss) st = each_script ss st'"
    using b by (cases r) (simp_all add: try_catch_def)
  with Cons.IH [OF i] show ?case by simp
qed

lemma identity_inv_init: "identity_inv init_schema_state"
  by (simp add: identity_inv_def init_schema_state_def)

lemma two_identities_state:
  "each_script [Parsed two_identities] init_schema_state =
     (Returned,
      \<lparr>schemaTypes = [JStr ''Organization'', JStr ''Person''], hasIdentitySchema = True,
       identityType = JStr ''Person'', hasLocalBusinessSchema = False\<rparr>)"
  by (simp add: two_identities_def extractSchemaTypes.simps graph_items_def type_list_def
      add_type_def init_schema_state_def is_identity_def try_catch_def)

text \<open>
  Claim C3, as stated: with two or more distinct identity types met, the reported
  identity type is the first of them in first-seen order. It is not: the script
  \<open>two_identities\<close> meets \<^verbatim>\<open>Organization\<close> first and \<^verbatim>\<open>Person\<close> second, and
  \<^verbatim>\<open>Person\<close> is reported.
\<close>

theorem identity_type_first_counterexample:
  "filter is_identity
     (schemaTypes (snd (each_script [Parsed two_identities] init_schema_state))) =
     [JStr ''Organization'', JStr ''Person''] \<and>
   reported_identityType (snd (each_script [Parsed two_identities] init_schema_state)) =
     Some (JStr ''Person'') \<and>
   reported_identityType (snd (each_script [Parsed two_identities] init_schema_state)) \<noteq>
     Some (hd (filter is_identity
       (schemaTypes (snd (each_script [Parsed two_identities] init_schema_state)))))"
  unfolding two_identities_state
  by (simp add: reported_identityType_def is_identity_def)

text \<open>
  Claim C3, amended. \<open>schemaTypes\<close> lists the types met, each once, in first-seen
  order. Whenever two or more identity types are in it, \<open>hasIdentitySchema\<close> is true and
  the reported identity type is the last of them, which is never the first: every newly
  seen identity type overwrites \<^verbatim>\<open>identityType\<close>.
\<close>

theorem identity_type_is_last_seen:
  assumes "2 \<le> length (filter is_identity
                    (schemaTypes (snd (each_script scripts init_schema_state))))"
  shows "hasIdentitySchema (snd (each_script scripts init_schema_state)) \<and>
         reported_identityType (snd (each_script scripts init_schema_state)) =
           Some (last (filter is_identity
                   (schemaTypes (snd (each_script scripts init_schema_state))))) \<and>
         last (filter is_identity (schemaTypes (snd (each_script scripts init_schema_state))))
           \<noteq> hd (filter is_identity
                   (schemaTypes (snd (each_script scripts init_schema_state))))"
proof -
  let ?st = "snd (each_script scripts init_schema_state)"
  let ?ids = "filter is_identity (schemaTypes ?st)"
  have inv: "identity_inv ?st"
    by (rule each_script_identity_inv [OF identity_inv_init])
  from assms have ne: "?ids \<noteq> []" by auto
  from inv ne have h: "hasIdentitySchema ?st" and i: "identityType ?st = last ?ids"
    and d: "distinct ?ids"
    by (simp_all add: identity_inv_def)
  from assms obtain x y zs where ids: "?ids = x # y # zs"
    by (cases ?ids; cases "tl ?ids") auto
  with d have "last ?ids \<noteq> hd ?ids" by auto
  with h i show ?thesis by (simp add: reported_identityType_def)
qed

theorem identity_type_is_last_seen_witness:
  "2 \<le> length (filter is_identity
            (schemaTypes (snd (each_script [Parsed two_identities] init_schema_state)))) \<and>
   hasIdentitySchema (snd (each_script [Parsed two_identities] init_schema_state)) \<and>
   reported_identityType (snd (each_script [Parsed two_identities] init_schema_state)) =
     Some (JStr ''Person'')"
proof -
  have h: "2 \<le> length (filter is_identity
            (schemaTypes (snd (each_script [Parsed two_identities] init_schema_state))))"
    unfolding two_identities_state by (simp add: is_identity_def)
  from identity_type_is_last_seen [OF h] h show ?thesis
    unfolding two_identities_state by (simp add: is_identity_def)
qed

lemma encountered_graph:
  assumes "graph_items script = Some members"
  shows "encountered script = concat (map encountered members)"
proof -
  from assms have "truthy script"
    by (cases script) (auto simp: graph_items_def)
  with assms show ?thesis by (simp add: encountered.simps [of script])
qed

text \<open>
  The sequence \<open>encountered\<close> holds the own types of a node and all that its nested
  objects hold, at any depth.
\<close>

lemma encountered_own_types:
  "truthy node \<Longrightarrow> graph_items node = None \<Longrightarrow> set (type_list node) \<subseteq> set (encountered node)"
  by (simp add: encountered.simps [of node])

lemma set_concat_map_member: "v \<in> set vs \<Longrightarrow> set (f v) \<subseteq> set (concat (map f vs))"
  by auto

lemma encountered_nested_object:
  assumes "truthy node" "graph_items node = None"
      and "JObj kvs \<in> set (object_values node)"
  shows "set (encountered (JObj kvs)) \<subseteq> set (encountered node)"
proof -
  let ?G = "\<lambda>item. if truthy item \<and> typeof_object item then encountered item else []"
  let ?F = "\<lambda>v. if truthy v \<and> typeof_object v \<and> \<not> is_array v then encountered v
                 else (case v of JArr items \<Rightarrow> concat (map ?G items) | _ \<Rightarrow> [])"
  have e: "encountered node = type_list node @ concat (map ?F (object_values node))"
    using assms(1,2) by (simp add: encountered.simps [of node])
  have "set (?F (JObj kvs)) \<subseteq> set (concat (map ?F (object_values node)))"
    by (rule set_concat_map_member [OF assms(3)])
  then have "set (encountered (JObj kvs)) \<subseteq> set (concat (map ?F (object_values node)))"
    by simp
  then show ?thesis unfolding e by auto
qed

lemma encountered_nested_array:
  assumes "truthy node" "graph_items node = None"
      and "JArr items \<in> set (object_values node)" "item \<in> set items"
      and "truthy item" "typeof_object item"
  shows "set (encountered item) \<subseteq> set (encountered node)"
proof -
  let ?G = "\<lambda>item. if truthy item \<and> typeof_object item then encountered item else []"
  let ?F = "\<lambda>v. if truthy v \<and> typeof_object v \<and> \<not> is_array v then encountered v
                 else (case v of JArr items \<Rightarrow> concat (map ?G items) | _ \<Rightarrow> [])"
  have e: "encountered node = type_list node @ concat (map ?F (object_values node))"
    using assms(1,2) by (simp add: encountered.simps [of node])
  have "set (?G item) \<subseteq> set (concat (map ?G items))"
    by (rule set_concat_map_member [OF assms(4)])
  then have 1: "set (encountered item) \<subseteq> set (concat (map ?G items))"
    using assms(5,6) by simp
  have "set (?F (JArr items)) \<subseteq> set (concat (map ?F (object_values node)))"
    by (rule set_concat_map_member [OF assms(3)])
  then have 2: "set (concat (map ?G items)) \<subseteq> set (concat (map ?F (object_values node)))"
    by simp
  from 1 2 show ?thesis unfolding e by auto
qed

lemma graph_script_members:
  "graph_items graph_script =
     Some [JObj [(''@type'', JStr ''Organization''),
                 (''founder'', JObj [(''@type'', JStr ''Person'')])],
           JObj [(''@type'', JArr [JStr ''WebSite'', JStr ''Organization'']),
                 (''offers'', JArr [JObj [(''@type'', JStr ''Offer'')]])]]"
  by (simp add: graph_script_def graph_items_def)

lemma graph_script_encountered:
  "concat (map encountered
     [JObj [(''@type'', JStr ''Organization''),
            (''founder'', JObj [(''@type'', JStr ''Person'')])],
      JObj [(''@type'', JArr [JStr ''WebSite'', JStr ''Organization'']),
            (''offers'', JArr [JObj [(''@type'', JStr ''Offer'')]])]]) =
   [JStr ''Organization'', JStr ''Person'', JStr ''WebSite'', JStr ''Organization'',
    JStr ''Offer'']"
  by (simp add: encountered.simps graph_items_def type_list_def)

text \<open>The script loop: it never stops early and its list of types only grows.\<close>

lemma each_script_Returned: "fst (each_script scripts st) = Returned"
proof (induction scripts arbitrary: st)
  case Nil
  show ?case by simp
next
  case (Cons s ss)
  obtain r st' where b: "script_body s st = (r, st')" by (cases "script_body s st")
  have "each_script (s # ss) st = each_script ss st'"
    using b by (cases r) (simp_all add: try_catch_def)
  with Cons.IH [of st'] show ?case by simp
qed

lemma each_script_step: "each_script (s # ss) st = each_script ss (snd (script_body s st))"
proof -
  obtain r st' where b: "script_body s st = (r, st')" by (cases "script_body s st")
  then show ?thesis by (cases r) (simp_all add: try_catch_def)
qed

lemma each_script_skips_malformed:
  "each_script scripts st = each_script (filter (\<lambda>s. s \<noteq> Malformed) scripts) st"
proof (induction scripts arbitrary: st)
  case Nil
  show ?case by simp
next
  case (Cons s ss)
  show ?case
  proof (cases "s = Malformed")
    case True
    with Cons.IH [of st] show ?thesis by (simp add: each_script_step del: each_script.simps(2))
  next
    case False
    with Cons.IH [of "snd (script_body s st)"] show ?thesis by (simp add: each_script_step del: each_script.simps(2))
  qed
qed

lemma add_type_grows: "set (schemaTypes st) \<subseteq> set (schemaTypes (snd (add_type t st)))"
proof (cases "truthy t \<and> \<not> array_includes (schemaTypes st) t")
  case False
  then show ?thesis by (simp add: add_type_skip)
next
  case True
  then obtain b where "snd (add_type t st) =
           st\<lparr>schemaTypes := schemaTypes st @ [t],
              hasIdentitySchema := hasIdentitySchema st \<or> is_identity t,
              identityType := (if is_identity t then t else identityType st),
              hasLocalBusinessSchema := hasLocalBusinessSchema st \<or> b\<rparr>"
    using add_type_push [of t st] by blast
  then show ?thesis by auto
qed

lemma add_types_grows: "set (schemaTypes st) \<subseteq> set (schemaTypes (snd (add_types ts st)))"
proof (induction ts arbitrary: st)
  case Nil
  show ?case by simp
next
  case (Cons t ts)
  obtain r st' where a: "add_type t st = (r, st')" by (cases "add_type t st")
  with add_type_grows [of st t] have g: "set (schemaTypes st) \<subseteq> set (schemaTypes st')" by simp
  show ?case
  proof (cases r)
    case Returned
    with a g Cons.IH [of st'] show ?thesis by auto
  next
    case (Thrown e)
    with a g show ?thesis by simp
  qed
qed

lemma script_body_grows: "set (schemaTypes st) \<subseteq> set (schemaTypes (snd (script_body s st)))"
  by (cases s) (simp_all add: walk_is_add_types add_types_grows)

lemma each_script_grows: "set (schemaTypes st) \<subseteq> set (schemaTypes (snd (each_script scripts st)))"
proof (induction scripts arbitrary: st)
  case Nil
  show ?case by simp
next
  case (Cons s ss)
  from script_body_grows [of st s] Cons.IH [of "snd (script_body s st)"]
  show ?case by (auto simp: each_script_step simp del: each_script.simps(2))
qed

lemma script_body_contributes:
  assumes "string_typed (encountered schema)" "t \<in> set (encountered schema)" "truthy t"
  shows "t \<in> set (schemaTypes (snd (script_body (Parsed schema) st)))"
proof -
  from add_types_string [OF assms(1), of st]
  have "schemaTypes (snd (add_types (encountered schema) st)) =
          schemaTypes st @ filter (\<lambda>t. t \<notin> set (schemaTypes st))
                             (first_seen (filter truthy (encountered schema)))"
    by simp
  moreover have "t \<in> set (first_seen (filter truthy (encountered schema)))"
    using assms(2,3) by (simp add: set_first_seen)
  ultimately show ?thesis by (auto simp: walk_is_add_types)
qed

lemma each_script_contributes:
  assumes "Parsed schema \<in> set scripts"
      and "string_typed (encountered schema)" "t \<in> set (encountered schema)" "truthy t"
  shows "t \<in> set (schemaTypes (snd (each_script scripts st)))"
  using assms(1)
proof (induction scripts arbitrary: st)
  case Nil
  then show ?case by simp
next
  case (Cons s ss)
  show ?case
  proof (cases "s = Parsed schema")
    case True
    from script_body_contributes [OF assms(2-4), of st]
      each_script_grows [of "snd (script_body s st)" ss] True
    show ?thesis by (auto simp: each_script_step simp del: each_script.simps(2))
  next
    case False
    with Cons.prems have "Parsed schema \<in> set ss" by simp
    from Cons.IH [OF this, of "snd (script_body s st)"] show ?thesis
      by (simp add: each_script_step del: each_script.simps(2))
  qed
qed

text \<open>
  A script whose top-level object has a \<^verbatim>\<open>@graph\<close> array, all types met being
  strings: in terms of the walk, the resulting \<open>schemaTypes\<close> of a document of this one
  script is the sequence of the types met in the members with the first occurrence of
  each kept, and every document that holds the script lists all of them.
\<close>

lemma graph_types_follow_walk:
  assumes "graph_items script = Some members"
      and "string_typed (concat (map encountered members))"
  shows "schemaTypes (snd (each_script [Parsed script] init_schema_state)) =
           first_seen (filter truthy (concat (map encountered members))) \<and>
         distinct (schemaTypes (snd (each_script [Parsed script] init_schema_state))) \<and>
         set (schemaTypes (snd (each_script [Parsed script] init_schema_state))) =
           set (filter truthy (concat (map encountered members))) \<and>
         (\<forall>scripts st. Parsed script \<in> set scripts \<longrightarrow>
            set (filter truthy (concat (map encountered members)))
              \<subseteq> set (schemaTypes (snd (each_script scripts st))))"
proof -
  let ?ts = "concat (map encountered members)"
  have enc: "encountered script = ?ts"
    by (rule encountered_graph [OF assms(1)])
  have w: "extractSchemaTypes script init_schema_state = add_types ?ts init_schema_state"
    by (simp add: walk_is_add_types(1) enc)
  from add_types_string [OF assms(2), of init_schema_state]
  have r: "fst (add_types ?ts init_schema_state) = Returned"
    and s: "schemaTypes (snd (add_types ?ts init_schema_state)) = first_seen (filter truthy ?ts)"
    by (simp_all add: init_schema_state_def)
  have "snd (each_script [Parsed script] init_schema_state) =
          snd (add_types ?ts init_schema_state)"
    using r by (cases "add_types ?ts init_schema_state") (simp add: w try_catch_def)
  with s have one: "schemaTypes (snd (each_script [Parsed script] init_schema_state)) =
      first_seen (filter truthy ?ts)"
    by simp
  have any: "set (filter truthy ?ts) \<subseteq> set (schemaTypes (snd (each_script scripts st)))"
    if "Parsed script \<in> set scripts" for scripts st
  proof
    fix t
    assume "t \<in> set (filter truthy ?ts)"
    then have "t \<in> set (encountered script)" "truthy t" by (simp_all add: enc)
    with each_script_contributes [OF that, of t st] assms(2)
    show "t \<in> set (schemaTypes (snd (each_script scripts st)))" by (simp add: enc)
  qed
  from one any show ?thesis
    by (simp add: distinct_first_seen set_first_seen)
qed

text \<open>
  In a value without a \<^verbatim>\<open>@graph\<close> array at any depth the walk meets exactly the
  types the value declares.
\<close>

lemma concat_map_Nil: "concat (map (\<lambda>x. []) xs) = []"
  by (induction xs) simp_all

lemma encountered_primitive:
  "encountered JNull = []" "encountered (JBool b) = []" "encountered (JNum n) = []"
  "encountered (JStr s) = []"
  by (simp_all add: encountered.simps graph_items_def type_list_def comp_def concat_map_Nil)

lemma walk_of_graph_free:
  "graph_free v \<Longrightarrow>
     encountered v = declared_types v \<and>
     (if truthy v \<and> typeof_object v \<and> \<not> is_array v then encountered v
      else (case v of
              JArr items \<Rightarrow>
                concat (map (\<lambda>item. if truthy item \<and> typeof_object item
                                    then encountered item else []) items)
            | _ \<Rightarrow> [])) = declared_types v \<and>
     (if truthy v \<and> typeof_object v then encountered v else []) = declared_types v"
proof (induction v rule: declared_types.induct)
  case (1 props)
  let ?G = "\<lambda>item. if truthy item \<and> typeof_object item then encountered item else []"
  let ?F = "\<lambda>v. if truthy v \<and> typeof_object v \<and> \<not> is_array v then encountered v
                 else (case v of JArr items \<Rightarrow> concat (map ?G items) | _ \<Rightarrow> [])"
  from 1(2) have g: "graph_items (JObj props) = None"
    and f: "\<And>kv. kv \<in> set props \<Longrightarrow> graph_free (snd kv)"
    by (auto simp: list_all_iff)
  have "?F (snd kv) = declared_types (snd kv)" if "kv \<in> set props" for kv
    using 1(1) [OF that f [OF that]] by blast
  then have m: "map (\<lambda>kv. ?F (snd kv)) props = map (\<lambda>kv. declared_types (snd kv)) props"
    by (intro map_cong refl)
  have "encountered (JObj props) = type_list (JObj props) @ concat (map (\<lambda>kv. ?F (snd kv)) props)"
    using g by (simp add: encountered.simps [of "JObj props"] comp_def)
  then have "encountered (JObj props) = declared_types (JObj props)"
    by (simp only: m declared_types.simps)
  then show ?case by simp
next
  case (2 items)
  let ?G = "\<lambda>item. if truthy item \<and> typeof_object item then encountered item else []"
  let ?F = "\<lambda>v. if truthy v \<and> typeof_object v \<and> \<not> is_array v then encountered v
                 else (case v of JArr items \<Rightarrow> concat (map ?G items) | _ \<Rightarrow> [])"
  from 2(2) have f: "\<And>x. x \<in> set items \<Longrightarrow> graph_free x"
    by (auto simp: list_all_iff)
  have "?F x = declared_types x" if "x \<in> set items" for x
    using 2(1) [OF that f [OF that]] by blast
  then have mf: "map ?F items = map declared_types items"
    by (intro map_cong refl)
  have "?G x = declared_types x" if "x \<in> set items" for x
    using 2(1) [OF that f [OF that]] by blast
  then have mg: "map ?G items = map declared_types items"
    by (intro map_cong refl)
  have "encountered (JArr items) = concat (map ?F items)"
    by (simp add: encountered.simps [of "JArr items"] graph_items_def type_list_def)
  then have p: "encountered (JArr items) = declared_types (JArr items)"
    by (simp only: mf declared_types.simps)
  have "concat (map ?G items) = declared_types (JArr items)"
    by (simp only: mg declared_types.simps)
  with p show ?case by simp
qed (simp_all add: encountered_primitive)

lemma encountered_graph_free:
  "graph_free v \<Longrightarrow> encountered v = declared_types v"
  using walk_of_graph_free by blast

lemma encountered_graph_free_members:
  "list_all graph_free members \<Longrightarrow>
     concat (map encountered members) = concat (map declared_types members)"
  by (induction members) (simp_all add: encountered_graph_free)

lemma named_graph_members: "graph_items named_graph_script = Some [named_member]"
  by (simp add: named_graph_script_def graph_items_def)

lemma named_member_declared:
  "declared_types named_member = [JStr ''WebPage'', JStr ''Person'']"
  by (simp add: named_member_def type_list_def)

lemma named_member_encountered: "encountered named_member = []"
  by (simp add: named_member_def encountered.simps graph_items_def)

lemma graph_script_declared:
  "concat (map declared_types
     [JObj [(''@type'', JStr ''Organization''),
            (''founder'', JObj [(''@type'', JStr ''Person'')])],
      JObj [(''@type'', JArr [JStr ''WebSite'', JStr ''Organization'']),
            (''offers'', JArr [JObj [(''@type'', JStr ''Offer'')]])]]) =
   [JStr ''Organization'', JStr ''Person'', JStr ''WebSite'', JStr ''Organization'',
    JStr ''Offer'']"
  by (simp add: type_list_def)

text \<open>
  Claim C5, as stated: for a script whose top-level object has a \<^verbatim>\<open>@graph\<close> array,
  \<open>schemaTypes\<close> holds the types of all the members, those nested at any depth
  included. It does not when a member has a \<^verbatim>\<open>@graph\<close> array of its own: such a
  member stands for the members of its own graph and its type and the types below its
  other properties are not read. The one member of \<open>named_graph_script\<close> declares
  \<^verbatim>\<open>WebPage\<close> and, nested, \<^verbatim>\<open>Person\<close>, and the list stays empty.
\<close>

theorem named_graph_member_counterexample:
  "graph_items named_graph_script = Some [named_member] \<and>
   declared_types named_member = [JStr ''WebPage'', JStr ''Person''] \<and>
   schemaTypes (snd (each_script [Parsed named_graph_script] init_schema_state)) = []"
proof -
  have "encountered named_graph_script = []"
    by (simp add: encountered_graph [OF named_graph_members] named_member_encountered)
  then have "each_script [Parsed named_graph_script] init_schema_state =
               (Returned, init_schema_state)"
    by (simp add: walk_is_add_types(1) try_catch_def)
  then show ?thesis
    by (simp add: named_graph_members named_member_declared init_schema_state_def)
qed

text \<open>
  Claim C5, amended. A script whose top-level object has a \<^verbatim>\<open>@graph\<close> array, no node
  of the members having a \<^verbatim>\<open>@graph\<close> array of its own, all declared types being
  strings. In a document of this one script the resulting \<open>schemaTypes\<close> is the sequence
  of the types the members declare, nested ones at any depth included, with the first
  occurrence of each kept and the later ones dropped: it has no duplicates and its
  elements are exactly the types of the members. In any document that holds the script,
  whatever the other scripts and the types listed before, the final \<open>schemaTypes\<close>
  contains all the types of the members.
\<close>

theorem graph_member_types_first_seen:
  assumes "graph_items script = Some members"
      and "list_all graph_free members"
      and "string_typed (concat (map declared_types members))"
  shows "schemaTypes (snd (each_script [Parsed script] init_schema_state)) =
           first_seen (filter truthy (concat (map declared_types members))) \<and>
         distinct (schemaTypes (snd (each_script [Parsed script] init_schema_state))) \<and>
         set (schemaTypes (snd (each_script [Parsed script] init_schema_state))) =
           set (filter truthy (concat (map declared_types members))) \<and>
         (\<forall>scripts st. Parsed script \<in> set scripts \<longrightarrow>
            set (filter truthy (concat (map declared_types members)))
              \<subseteq> set (schemaTypes (snd (each_script scripts st))))"
proof -
  have eq: "concat (map encountered members) = concat (map declared_types members)"
    by (rule encountered_graph_free_members [OF assms(2)])
  from assms(3) have st: "string_typed (concat (map encountered members))"
    by (simp only: eq)
  show ?thesis
    by (rule graph_types_follow_walk [OF assms(1) st, unfolded eq])
qed

theorem graph_member_types_first_seen_witness:
  "graph_items graph_script \<noteq> None \<and>
   list_all graph_free (the (graph_items graph_script)) \<and>
   schemaTypes (snd (each_script [Parsed graph_script] init_schema_state)) =
     [JStr ''Organization'', JStr ''Person'', JStr ''WebSite'', JStr ''Offer'']"
proof -
  have g: "list_all graph_free
     [JObj [(''@type'', JStr ''Organization''),
            (''founder'', JObj [(''@type'', JStr ''Person'')])],
      JObj [(''@type'', JArr [JStr ''WebSite'', JStr ''Organization'']),
            (''offers'', JArr [JObj [(''@type'', JStr ''Offer'')]])]]"
    by (simp add: graph_items_def)
  have t: "string_typed (concat (map declared_types
     [JObj [(''@type'', JStr ''Organization''),
            (''founder'', JObj [(''@type'', JStr ''Person'')])],
      JObj [(''@type'', JArr [JStr ''WebSite'', JStr ''Organization'']),
            (''offers'', JArr [JObj [(''@type'', JStr ''Offer'')]])]]))"
    unfolding graph_script_declared by (simp add: string_typed_def)
  from graph_member_types_first_seen [OF graph_script_members g t] g show ?thesis
    unfolding graph_script_declared
    by (simp add: graph_script_members first_seen_def)
qed

text \<open>
  Claim C6. Whatever the scripts of a document are, the loop over them returns normally:
  no exception leaves it. The scripts that fail to parse change nothing, the result is that
  of the document without them. And every script that parses, with strings for types,
  has all its types in the final \<open>schemaTypes\<close>, whichever scripts before or after it
  failed.
\<close>

theorem malformed_scripts_are_skipped:
  "fst (each_script scripts st) = Returned \<and>
   each_script scripts st = each_script (filter (\<lambda>s. s \<noteq> Malformed) scripts) st \<and>
   (\<forall>schema t. Parsed schema \<in> set scripts \<and> string_typed (encountered schema) \<and>
        t \<in> set (encountered schema) \<and> truthy t \<longrightarrow>
        t \<in> set (schemaTypes (snd (each_script scripts st))))"
proof (intro conjI allI impI)
  show "fst (each_script scripts st) = Returned"
    by (rule each_script_Returned)
  show "each_script scripts st = each_script (filter (\<lambda>s. s \<noteq> Malformed) scripts) st"
    by (rule each_script_skips_malformed)
next
  fix schema t
  assume "Parsed schema \<in> set scripts \<and> string_typed (encountered schema) \<and>
        t \<in> set (encountered schema) \<and> truthy t"
  then show "t \<in> set (schemaTypes (snd (each_script scripts st)))"
    using each_script_contributes [of schema scripts t st] by blast
qed

theorem malformed_scripts_are_skipped_witness:
  "fst (each_script mixed_scripts init_schema_state) = Returned \<and>
   each_script mixed_scripts init_schema_state =
     each_script [Parsed two_identities, NoContent, Parsed graph_script] init_schema_state \<and>
   JStr ''Offer'' \<in> set (schemaTypes (snd (each_script mixed_scripts init_schema_state)))"
proof -
  have e: "encountered graph_script =
      [JStr ''Organization'', JStr ''Person'', JStr ''WebSite'', JStr ''Organization'',
       JStr ''Offer'']"
    unfolding encountered_graph [OF graph_script_members] by (rule graph_script_encountered)
  have h: "Parsed graph_script \<in> set mixed_scripts \<and> string_typed (encountered graph_script) \<and>
        JStr ''Offer'' \<in> set (encountered graph_script) \<and> truthy (JStr ''Offer'')"
    unfolding e by (simp add: mixed_scripts_def string_typed_def)
  have f: "filter (\<lambda>s. s \<noteq> Malformed) mixed_scripts =
             [Parsed two_identities, NoContent, Parsed graph_script]"
    by (simp add: mixed_scripts_def)
  note m = malformed_scripts_are_skipped [of mixed_scripts init_schema_state]
  from m have 1: "fst (each_script mixed_scripts init_schema_state) = Returned"
    by (rule conjunct1)
  from m have "each_script mixed_scripts init_schema_state =
      each_script (filter (\<lambda>s. s \<noteq> Malformed) mixed_scripts) init_schema_state"
    by blast
  then have 2: "each_script mixed_scripts init_schema_state =
      each_script [Parsed two_identities, NoContent, Parsed graph_script] init_schema_state"
    by (simp only: f)
  from m h have 3:
    "JStr ''Offer'' \<in> set (schemaTypes (snd (each_script mixed_scripts init_schema_state)))"
    by blast
  from 1 2 3 show ?thesis by (intro conjI)
qed

section \<open>Properties of the address detection\<close>

text \<open>
  The loop over the scripts stops at the first script that yields a candidate; the other
  sources are read only when there is none.
\<close>

lemma each_address_script_find:
  "each_address_script scripts st =
     (case find yields_address scripts of
        None \<Rightarrow> st
      | Some s \<Rightarrow> st\<lparr>hasAddress := True, addressText := ld_candidate s,
                     addressSource := Some ''Schema.org''\<rparr>)"
proof (induction scripts)
  case Nil
  show ?case by simp
next
  case (Cons s ss)
  show ?case
  proof (cases "script_address s")
    case (Inl e)
    with Cons show ?thesis by (simp add: yields_address_def ld_candidate_def)
  next
    case (Inr r)
    show ?thesis
    proof (cases r)
      case None
      with Inr Cons show ?thesis by (simp add: yields_address_def ld_candidate_def)
    next
      case (Some addr)
      with Inr Cons show ?thesis by (simp add: yields_address_def ld_candidate_def)
    qed
  qed
qed

lemma detect_address_find:
  "detect_address scripts srcs =
     (case find yields_address scripts of
        None \<Rightarrow> fallback_address srcs
      | Some s \<Rightarrow> \<lparr>hasAddress = True, addressText = ld_candidate s,
                     addressSource = Some ''Schema.org''\<rparr>)"
  by (simp add: detect_address_def each_address_script_find fallback_address_def Let_def
      split: option.splits list.splits)

lemma string_form_yields:
  assumes "get schema ''address'' = Some (JStr a)" "length a > 15"
      and "\<not> truthy_opt (get schema ''@graph'')"
  shows "ld_candidate (Parsed schema) = Some a"
proof -
  from assms(1) have "schema \<noteq> JNull" by auto
  with assms show ?thesis
    by (auto simp: ld_candidate_def extractAddress_def)
qed

lemma object_form_yields:
  assumes "get schema ''address'' = Some (JObj parts)"
      and "truthy_opt (map_of parts ''streetAddress'')"
      and "\<not> truthy_opt (get schema ''@graph'')"
      and "elems_str (address_parts (JObj parts)) = Inr texts"
      and "length (join '', '' texts) > 15"
  shows "ld_candidate (Parsed schema) = Some (join '', '' texts)"
proof -
  from assms(1) have "schema \<noteq> JNull" by auto
  with assms show ?thesis
    by (auto simp: ld_candidate_def extractAddress_def)
qed

lemma graph_member_yields:
  assumes "get schema ''@graph'' = Some (JArr members)"
      and "first_address members = Inr (Some a)" "length a > 15"
  shows "ld_candidate (Parsed schema) = Some a"
proof -
  from assms(1) have "schema \<noteq> JNull" by auto
  with assms show ?thesis
    by (auto simp: ld_candidate_def truthy_opt_def)
qed


lemma no_schema_address_falls_back:
  "find yields_address scripts = None \<Longrightarrow> detect_address scripts srcs = fallback_address srcs"
  by (simp add: detect_address_find)



lemma no_address_extract:
  "no_address m \<Longrightarrow> extractAddress m \<noteq> Inr (Some a)"
  by (auto simp: no_address_def extractAddress_def truthy_opt_def split: option.splits)



lemma first_address_member:
  "first_address ms = Inr (Some a) \<Longrightarrow> \<exists>m \<in> set ms. extractAddress m = Inr (Some a)"
proof (induction ms)
  case Nil
  then show ?case by simp
next
  case (Cons m ms)
  then show ?case
    by (auto split: sum.splits option.splits if_splits)
qed

lemma first_address_none:
  "list_all no_address ms \<Longrightarrow> first_address ms \<noteq> Inr (Some a)"
  using first_address_member [of ms a] no_address_extract
  by (auto simp: list_all_iff)

















section \<open>The worked example\<close>

lemma js_percent_10_10: "js_percent 10 10 = Some 100"
  by (simp add: js_percent_def js_div_def fl_def scale_exp_def div_rne_def js_times100_def
      js_round_def bitlen.simps Let_def)

lemma facts_analyzeSEO:
  "metaFacts (analyzeSEO p) =
     mk_metaTags (titleText p) (descriptionAttr p) (viewportAttr p) (ogTags p) (twitterCard p)"
  "headingFacts (analyzeSEO p) = mk_headings (h1Elements p) (headingCounts p)"
  "contentFacts (analyzeSEO p) = mk_content (bodyRaw p)"
  "technicalFacts (analyzeSEO p) =
     mk_technicalSEO (isSSL p) (robotsOk p) (sitemapOk p) (viewportAttr p) (html p) (bodyRaw p)
       (ldJsonScripts p) (microdataPresent p) (rdfaPresent p)"
  "socialFacts (analyzeSEO p) = mk_social (hrefAttrs p) (ogUrlAttr p)"
  "localBusinessSchema (localFacts (analyzeSEO p)) =
     hasLocalBusinessSchema (structuredData (technicalFacts (analyzeSEO p)))"
  by (simp_all add: analyzeSEO_def Let_def)

lemma hasTitle_iff: "hasTitle (metaFacts (analyzeSEO p)) = (titleLength (metaFacts (analyzeSEO p)) > 0)"
  by (simp add: facts_analyzeSEO mk_metaTags_def)

lemma altPercentage_eq:
  "altPercentage (imageFacts (analyzeSEO p)) =
     (if totalImages (imageFacts (analyzeSEO p)) > 0
      then js_percent (withAlt (imageFacts (analyzeSEO p))) (totalImages (imageFacts (analyzeSEO p)))
      else Some 100)"
  by (simp add: imageFacts_analyzeSEO mk_imagesData_def Let_def)

lemma no_schema_no_local_business:
  assumes "\<not> hasSchema (technicalFacts (analyzeSEO p))"
  shows "\<not> localBusinessSchema (localFacts (analyzeSEO p))"
proof -
  let ?st = "snd (each_script (ldJsonScripts p) init_schema_state)"
  have inv: "identity_inv ?st"
    by (rule each_script_identity_inv [OF identity_inv_init])
  from assms have "schemaTypes ?st = []"
    by (simp add: facts_analyzeSEO mk_technicalSEO_def Let_def)
  with inv have "\<not> hasLocalBusinessSchema ?st"
    by (auto simp: identity_inv_def split: if_splits)
  then show ?thesis
    by (simp add: facts_analyzeSEO mk_technicalSEO_def Let_def)
qed

lemma breakdown_of_example_facts:
  assumes "titleLength (metaFacts (analyzeSEO p)) = 55"
      and "\<not> hasDescription (metaFacts (analyzeSEO p))"
      and "h1Count (headingFacts (analyzeSEO p)) = 1"
      and "h1Text (headingFacts (analyzeSEO p)) = [t]" and "length t = 25"
      and "h2Count (headingFacts (analyzeSEO p)) = 0"
      and "totalImages (imageFacts (analyzeSEO p)) = 10"
      and "withAlt (imageFacts (analyzeSEO p)) = 10"
      and "wordCount (contentFacts (analyzeSEO p)) < 50"
      and "hasSSL (technicalFacts (analyzeSEO p))"
      and "\<not> hasRobotsTxt (technicalFacts (analyzeSEO p))"
      and "\<not> hasSitemap (technicalFacts (analyzeSEO p))"
      and "\<not> hasAnalytics (technicalFacts (analyzeSEO p))"
      and "\<not> hasSchema (technicalFacts (analyzeSEO p))"
      and "\<not> hasPhone (localFacts (analyzeSEO p))"
      and "\<not> hasAddress (addressFacts (localFacts (analyzeSEO p)))"
      and "socialLinksCount (socialFacts (analyzeSEO p)) = 0"
  shows "breakdown (analyzeSEO p) = \<lparr>onPage = 24, technical = 5, local = 0, social = 0\<rparr>"
proof -
  let ?r = "analyzeSEO p"
  have title: "title_points (metaFacts ?r) = 12"
    using assms(1) hasTitle_iff [of p] by (simp add: title_points_def)
  have desc: "description_points (metaFacts ?r) = 0"
    using assms(2) by (simp add: description_points_def)
  have h1: "h1_points (headingFacts ?r) = 8"
    using assms(3-5) by (simp add: h1_points_def)
  have hier: "hierarchy_points (headingFacts ?r) = 0"
    using assms(6) by (simp add: hierarchy_points_def)
  have "altPercentage (imageFacts ?r) = Some 100"
    using assms(7,8) by (simp add: altPercentage_eq js_percent_10_10)
  then have alt: "alt_points (imageFacts ?r) = 4"
    using assms(7) by (simp add: alt_points_def)
  have cont: "content_points (contentFacts ?r) = 0"
    using assms(9) by (simp add: content_points_def)
  have on: "onPagePoints (metaFacts ?r) (headingFacts ?r) (imageFacts ?r) (contentFacts ?r) = 24"
    by (simp add: onPagePoints_def title desc h1 hier alt cont)
  have tech: "technicalPoints (technicalFacts ?r) = 5"
    using assms(10-14) by (simp add: technicalPoints_def)
  have loc: "localPoints (hasPhone (localFacts ?r)) (hasAddress (addressFacts (localFacts ?r)))
               (localBusinessSchema (localFacts ?r)) = 0"
    using assms(15,16) no_schema_no_local_business [OF assms(14)] by (simp add: localPoints_def)
  have soc: "socialPoints (socialFacts ?r) = 0"
    using assms(17) by (simp add: socialPoints_def)
  show ?thesis
    by (subst breakdown_analyzeSEO) (simp only: on tech loc soc)
qed


lemma worked_example_meta:
  "titleLength (metaFacts (analyzeSEO worked_example)) = 55"
  "\<not> hasDescription (metaFacts (analyzeSEO worked_example))"
  by (simp_all add: facts_analyzeSEO mk_metaTags_def worked_example_def)

lemma worked_example_headings:
  "h1Count (headingFacts (analyzeSEO worked_example)) = 1"
  "h1Text (headingFacts (analyzeSEO worked_example)) = [''Welcome to our small shop'']"
  "h2Count (headingFacts (analyzeSEO worked_example)) = 0"
  by (simp_all add: facts_analyzeSEO mk_headings_def worked_example_def trim_def is_space_def)

lemma worked_example_images:
  "totalImages (imageFacts (analyzeSEO worked_example)) = 10"
  "withAlt (imageFacts (analyzeSEO worked_example)) = 10"
proof -
  have "has_alt \<lparr>attr_src = Some ''a.png'', attr_alt = Some ''photo''\<rparr>"
    by (simp add: has_alt_def trim_def is_space_def)
  then show "totalImages (imageFacts (analyzeSEO worked_example)) = 10"
    "withAlt (imageFacts (analyzeSEO worked_example)) = 10"
    by (simp_all add: imageFacts_analyzeSEO mk_imagesData_def Let_def each_image_withAlt
        worked_example_def)
qed

lemma worked_example_content: "wordCount (contentFacts (analyzeSEO worked_example)) = 3"
  by (simp add: facts_analyzeSEO mk_content_def worked_example_def bodyText_of_def trim_def
      is_space_def split_ws_def)

lemma worked_example_technical:
  "hasSSL (technicalFacts (analyzeSEO worked_example))"
  "\<not> hasRobotsTxt (technicalFacts (analyzeSEO worked_example))"
  "\<not> hasSitemap (technicalFacts (analyzeSEO worked_example))"
  "\<not> hasAnalytics (technicalFacts (analyzeSEO worked_example))"
  "\<not> hasSchema (technicalFacts (analyzeSEO worked_example))"
  by (simp_all add: facts_analyzeSEO mk_technicalSEO_def Let_def worked_example_def
      detect_analytics_def init_schema_state_def)

lemma worked_example_local:
  "\<not> hasPhone (localFacts (analyzeSEO worked_example))"
  "\<not> hasAddress (addressFacts (localFacts (analyzeSEO worked_example)))"
  by (simp_all add: analyzeSEO_def Let_def worked_example_def validPhone_def
      body_phoneMatches_def detect_address_def addressCandidates_def microdata_candidates_def
      selector_candidates_def addressSelectors_def)

lemma worked_example_social: "socialLinksCount (socialFacts (analyzeSEO worked_example)) = 0"
  by (simp add: facts_analyzeSEO mk_social_def Let_def worked_example_def socialLinksCount_def)

text \<open>
  Claim C1, as stated: the worked example scores 24, 5, 0 and 0, in total 29, and its
  grade is \<^verbatim>\<open>D-\<close>. The points are right; the grade is not. \<^verbatim>\<open>D-\<close> starts at 35
  and a total of 29 is graded \<^verbatim>\<open>F\<close>.
\<close>

theorem worked_example_grade_counterexample:
  "breakdown (analyzeSEO worked_example) =
     \<lparr>onPage = 24, technical = 5, local = 0, social = 0\<rparr> \<and>
   score (analyzeSEO worked_example) = 29 \<and>
   grade (analyzeSEO worked_example) = ''F'' \<and>
   grade (analyzeSEO worked_example) \<noteq> ''D-''"
proof -
  have w: "wordCount (contentFacts (analyzeSEO worked_example)) < 50"
    by (simp add: worked_example_content)
  have l: "length ''Welcome to our small shop'' = 25" by simp
  have b: "breakdown (analyzeSEO worked_example) =
             \<lparr>onPage = 24, technical = 5, local = 0, social = 0\<rparr>"
    by (rule breakdown_of_example_facts [OF worked_example_meta worked_example_headings(1,2) l
      worked_example_headings(3) worked_example_images w worked_example_technical
      worked_example_local worked_example_social])
  then have s: "score (analyzeSEO worked_example) = 29"
    by (simp add: score_analyzeSEO score_of_def)
  then have "grade (analyzeSEO worked_example) = ''F''"
    by (simp add: grade_analyzeSEO grade_of_def)
  with b s show ?thesis by simp
qed

text \<open>
  Claim C1, amended. Every page with the facts of the worked example scores
  \<open>onPage = 24\<close>, \<open>technical = 5\<close>, \<open>local = 0\<close>, \<open>social = 0\<close>, in total 29, and the
  grade mapped from that total is \<^verbatim>\<open>F\<close>.
\<close>

theorem worked_example_scores:
  assumes "titleLength (metaFacts (analyzeSEO p)) = 55"
      and "\<not> hasDescription (metaFacts (analyzeSEO p))"
      and "h1Count (headingFacts (analyzeSEO p)) = 1"
      and "h1Text (headingFacts (analyzeSEO p)) = [t]" and "length t = 25"
      and "h2Count (headingFacts (analyzeSEO p)) = 0"
      and "totalImages (imageFacts (analyzeSEO p)) = 10"
      and "withAlt (imageFacts (analyzeSEO p)) = 10"
      and "wordCount (contentFacts (analyzeSEO p)) < 50"
      and "hasSSL (technicalFacts (analyzeSEO p))"
      and "\<not> hasRobotsTxt (technicalFacts (analyzeSEO p))"
      and "\<not> hasSitemap (technicalFacts (analyzeSEO p))"
      and "\<not> hasAnalytics (technicalFacts (analyzeSEO p))"
      and "\<not> hasSchema (technicalFacts (analyzeSEO p))"
      and "\<not> hasPhone (localFacts (analyzeSEO p))"
      and "\<not> hasAddress (addressFacts (localFacts (analyzeSEO p)))"
      and "socialLinksCount (socialFacts (analyzeSEO p)) = 0"
  shows "onPage (breakdown (analyzeSEO p)) = 24 \<and> technical (breakdown (analyzeSEO p)) = 5 \<and>
         local (breakdown (analyzeSEO p)) = 0 \<and> social (breakdown (analyzeSEO p)) = 0 \<and>
         score (analyzeSEO p) = 29 \<and> grade (analyzeSEO p) = ''F''"
proof -
  have b: "breakdown (analyzeSEO p) = \<lparr>onPage = 24, technical = 5, local = 0, social = 0\<rparr>"
    by (rule breakdown_of_example_facts [OF assms])
  then have s: "score (analyzeSEO p) = 29"
    by (simp add: score_analyzeSEO score_of_def)
  then have "grade (analyzeSEO p) = ''F''"
    by (simp add: grade_analyzeSEO grade_of_def)
  with b s show ?thesis by simp
qed

theorem worked_example_scores_witness:
  "onPage (breakdown (analyzeSEO worked_example)) = 24 \<and>
   technical (breakdown (analyzeSEO worked_example)) = 5 \<and>
   local (breakdown (analyzeSEO worked_example)) = 0 \<and>
   social (breakdown (analyzeSEO worked_example)) = 0 \<and>
   score (analyzeSEO worked_example) = 29 \<and> grade (analyzeSEO worked_example) = ''F''"
proof -
  have w: "wordCount (contentFacts (analyzeSEO worked_example)) < 50"
    by (simp add: worked_example_content)
  have l: "length ''Welcome to our small shop'' = 25" by simp
  show ?thesis
    by (rule worked_example_scores [OF worked_example_meta worked_example_headings(1,2) l
      worked_example_headings(3) worked_example_images w worked_example_technical
      worked_example_local worked_example_social])
qed

end
